theory Spec2Isabelle
  imports Main "HOL-Library.Word"
begin

section \<open>A shallow embedding of the BMP reader, writer and editor of main.cpp\<close>

text \<open>
  The program reads a BMP file into a \<open>BMPImage\<close> (raw header bytes, three header
  fields, an array of pixel rows), draws lines into the pixel array and writes the image
  back. The embedding follows main.cpp function by function.

  \<^item> \<open>BYTE\<close>, \<open>WORD\<close> and \<open>DWORD\<close> are words of 8, 16 and 32 bits. A \<open>LONG\<close> is read
    from the file as a 32-bit word and used as the integer \<open>sint\<close> gives; loop counters
    and stream positions, which never go negative, are natural numbers.
  \<^item> Arithmetic on \<open>LONG\<close>s that can leave the 32 bits (the product in the row
    padding, every operation of \<open>draw_line\<close>) is written with the two's complement
    wrap-around \<open>wrap32\<close>.
  \<^item> The input file is the list of its bytes, and the get position of the
    \<open>std::ifstream\<close> is threaded through the reads. The stream is never checked by the
    source: a read beyond the end leaves its buffer uninitialised and every later value
    depends on it. The embedding stops there with the outcome \<open>Indeterminate\<close>, which
    is not an exception of the program.
  \<^item> A channel of a \<open>Pixel\<close> that the source leaves unassigned (the alpha of a pixel
    read at a bit count other than 32) is \<open>None\<close>.
  \<^item> An array access outside the allocated rows and columns is undefined behaviour in
    C++; the embedding reports it (\<open>OutOfBounds\<close>, or \<open>None\<close> in the writer and the
    printer) instead of inventing a value.
\<close>

subsection \<open>bmp\_header.hpp and the data of main.cpp\<close>

type_synonym BYTE = "8 word"
type_synonym WORD = "16 word"
type_synonym DWORD = "32 word"

record Pixel =
  px_r :: BYTE
  px_g :: BYTE
  px_b :: BYTE
  px_a :: "BYTE option"

record BMPHeaders =
  hdrs_bytes :: "BYTE list"
  hdrs_size :: nat

record BMPImageInfo =
  width :: int
  height :: int
  bit_count :: WORD

record BMPImage =
  m_array_pixels :: "Pixel list list"
  m_image_info :: BMPImageInfo
  m_hdrs :: BMPHeaders

datatype decode_error = InvalidSignature | BadArrayNewLength | Indeterminate

subsection \<open>BMPImageReader\<close>

text \<open>
  \<open>read_bytes<T>\<close> on a little-endian host: the bytes at the get position, least
  significant first. The result is the value and the new position, or \<open>None\<close> when the
  file has too few bytes left.
\<close>

definition le_nat :: "BYTE list \<Rightarrow> nat" where
  "le_nat bs = foldr (\<lambda>x acc. unat x + 256 * acc) bs 0"

definition read_BYTE :: "BYTE list \<Rightarrow> nat \<Rightarrow> (BYTE \<times> nat) option" where
  "read_BYTE f p = (if p < length f then Some (f ! p, p + 1) else None)"

definition read_WORD :: "BYTE list \<Rightarrow> nat \<Rightarrow> (WORD \<times> nat) option" where
  "read_WORD f p =
     (if p + 2 \<le> length f then Some (of_nat (le_nat (take 2 (drop p f))), p + 2) else None)"

definition read_DWORD :: "BYTE list \<Rightarrow> nat \<Rightarrow> (DWORD \<times> nat) option" where
  "read_DWORD f p =
     (if p + 4 \<le> length f then Some (of_nat (le_nat (take 4 (drop p f))), p + 4) else None)"

definition read_LONG :: "BYTE list \<Rightarrow> nat \<Rightarrow> (int \<times> nat) option" where
  "read_LONG f p =
     (case read_DWORD f p of None \<Rightarrow> None | Some (v, p') \<Rightarrow> Some (sint v, p'))"

definition read_signature :: "BYTE list \<Rightarrow> nat \<Rightarrow> (WORD \<times> nat) option" where
  "read_signature f p = read_WORD f p"

definition skip_bytes :: "nat \<Rightarrow> nat \<Rightarrow> nat" where
  "skip_bytes n p = p + n"

text \<open>One pixel of the inner loop: B, G, R, and A only at 32 bits per pixel.\<close>

definition read_pixel :: "BYTE list \<Rightarrow> WORD \<Rightarrow> nat \<Rightarrow> (Pixel \<times> nat) option" where
  "read_pixel f bc p =
     (case read_BYTE f p of None \<Rightarrow> None | Some (vb, p1) \<Rightarrow>
      case read_BYTE f p1 of None \<Rightarrow> None | Some (vg, p2) \<Rightarrow>
      case read_BYTE f p2 of None \<Rightarrow> None | Some (vr, p3) \<Rightarrow>
      if bc = 32
      then (case read_BYTE f p3 of None \<Rightarrow> None | Some (va, p4) \<Rightarrow>
              Some (\<lparr>px_r = vr, px_g = vg, px_b = vb, px_a = Some va\<rparr>, p4))
      else Some (\<lparr>px_r = vr, px_g = vg, px_b = vb, px_a = None\<rparr>, p3))"

text \<open>
  The inner loop \<open>for (j = 0; j < m_width; j++)\<close>. The source allocates the row
  uninitialised and assigns \<open>array_pixels[fixed_row][j]\<close> for every \<open>j\<close>; the
  embedding collects the pixels \<open>0..j-1\<close> assigned so far in \<open>row\<close>.
\<close>

function read_row :: "BYTE list \<Rightarrow> WORD \<Rightarrow> nat \<Rightarrow> nat \<Rightarrow> nat \<Rightarrow> Pixel list
    \<Rightarrow> (Pixel list \<times> nat) option" where
  "read_row f bc w j p row =
     (if j < w
      then (case read_pixel f bc p of None \<Rightarrow> None
            | Some (pixel, p') \<Rightarrow> read_row f bc w (j + 1) p' (row @ [pixel]))
      else Some (row, p))"
  by pat_completeness auto
termination
  by (relation "measure (\<lambda>(f, bc, w, j, p, row). w - j)") auto

text \<open>
  \<open>int padding = (4 - (m_width * 3 % 4)) % 4\<close>: \<open>%\<close> truncates towards zero, and the
  product is a 32-bit \<open>int\<close> (written here with the two's complement wrap-around).
\<close>

definition wrap32 :: "int \<Rightarrow> int" where
  "wrap32 x = sint (word_of_int x :: 32 word)"

definition c_rem :: "int \<Rightarrow> int \<Rightarrow> int" where
  "c_rem k l = sgn k * (\<bar>k\<bar> mod \<bar>l\<bar>)"

definition padding_of :: "int \<Rightarrow> int" where
  "padding_of w = c_rem (4 - c_rem (wrap32 (w * 3)) 4) 4"

text \<open>
  The outer loop \<open>for (i = 0; i < m_height; i++)\<close>: on-disk row \<open>i\<close> is stored at
  \<open>fixed_row\<close>, then the padding is skipped.
\<close>

function read_rows :: "BYTE list \<Rightarrow> WORD \<Rightarrow> nat \<Rightarrow> nat \<Rightarrow> bool \<Rightarrow> int \<Rightarrow> nat \<Rightarrow> nat
    \<Rightarrow> Pixel list list \<Rightarrow> Pixel list list option" where
  "read_rows f bc w h top_down padding i p array_pixels =
     (if i < h
      then (let fixed_row = (if top_down then h - 1 - i else i) in
            case read_row f bc w 0 p [] of None \<Rightarrow> None
            | Some (row, p') \<Rightarrow>
                read_rows f bc w h top_down padding (i + 1)
                  (if padding > 0 then p' + nat padding else p')
                  (array_pixels[fixed_row := row]))
      else Some array_pixels)"
  by pat_completeness auto
termination
  by (relation "measure (\<lambda>(f, bc, w, h, top_down, padding, i, p, arr). h - i)") auto

text \<open>
  \<open>read_array_pixels\<close>: seek to \<open>m_off_bits\<close>, allocate \<open>m_height\<close> rows and fill
  them. The rows are created empty here and replaced by the outer loop.
\<close>

definition read_array_pixels :: "BYTE list \<Rightarrow> nat \<Rightarrow> int \<Rightarrow> int \<Rightarrow> WORD \<Rightarrow> bool
    \<Rightarrow> Pixel list list option" where
  "read_array_pixels f m_off_bits m_width m_height m_bit_count top_down =
     read_rows f m_bit_count (nat m_width) (nat m_height) top_down (padding_of m_width)
       0 m_off_bits (replicate (nat m_height) [])"

definition read_headers :: "BYTE list \<Rightarrow> nat \<Rightarrow> BMPHeaders option" where
  "read_headers f m_off_bits =
     (if m_off_bits \<le> length f
      then Some \<lparr>hdrs_bytes = take m_off_bits f, hdrs_size = m_off_bits\<rparr>
      else None)"

text \<open>
  \<open>read_image\<close>. \<open>std::abs\<close> of the least \<open>LONG\<close> is undefined, and \<open>new Pixel[m_width]\<close>
  with a negative width throws \<open>std::bad_array_new_length\<close> when a row is allocated.
  Running out of memory is not modelled.
\<close>

definition read_image :: "BYTE list \<Rightarrow> decode_error + BMPImage" where
  "read_image f =
     (case read_signature f 0 of None \<Rightarrow> Inl Indeterminate | Some (sig, p1) \<Rightarrow>
      if sig \<noteq> 0x4D42 then Inl InvalidSignature else
      case read_DWORD f (skip_bytes 8 p1) of None \<Rightarrow> Inl Indeterminate
      | Some (off_bits, p2) \<Rightarrow>
      case read_LONG f (skip_bytes 4 p2) of None \<Rightarrow> Inl Indeterminate
      | Some (m_width, p3) \<Rightarrow>
      case read_LONG f p3 of None \<Rightarrow> Inl Indeterminate
      | Some (height0, p4) \<Rightarrow>
      if height0 = - (2 ^ 31) then Inl Indeterminate else
      let top_down = (height0 < 0);
          m_height = (if height0 < 0 then \<bar>height0\<bar> else height0) in
      case read_WORD f (skip_bytes 2 p4) of None \<Rightarrow> Inl Indeterminate
      | Some (m_bit_count, p5) \<Rightarrow>
      if 0 < m_height \<and> m_width < 0 then Inl BadArrayNewLength else
      case read_array_pixels f (unat off_bits) m_width m_height m_bit_count top_down of
        None \<Rightarrow> Inl Indeterminate
      | Some array_pixels \<Rightarrow>
      case read_headers f (unat off_bits) of None \<Rightarrow> Inl Indeterminate
      | Some hdrs \<Rightarrow>
          Inr \<lparr>m_array_pixels = array_pixels,
               m_image_info = \<lparr>width = m_width, height = m_height, bit_count = m_bit_count\<rparr>,
               m_hdrs = hdrs\<rparr>)"

subsection \<open>BMPImage: pixel access and print\_image\<close>

text \<open>
  \<open>pixel_at(x, y)\<close> is \<open>m_array_pixels[x][y]\<close>: the first index selects the row. The
  source does not check the indices; the embedding gives \<open>None\<close> outside the array.
\<close>

definition pixel_at :: "BMPImage \<Rightarrow> nat \<Rightarrow> nat \<Rightarrow> Pixel option" where
  "pixel_at img x y =
     (if x < length (m_array_pixels img) \<and> y < length (m_array_pixels img ! x)
      then Some (m_array_pixels img ! x ! y) else None)"

text \<open>
  The comparison \<open>i < m_image.height()\<close> of a \<open>size_t\<close> with a \<open>LONG\<close> converts the
  \<open>LONG\<close> to 64 bits unsigned.
\<close>

definition size_t_of :: "int \<Rightarrow> nat" where
  "size_t_of x = nat (x mod 2 ^ 64)"

text \<open>What \<open>print_image\<close> sends to \<open>std::cout\<close> for one pixel.\<close>

definition print_pixel :: "Pixel \<Rightarrow> string" where
  "print_pixel p =
     (if px_r p = 0 \<and> px_g p = 0 \<and> px_b p = 0 then ''@''
      else if px_r p = 255 \<and> px_g p = 255 \<and> px_b p = 255 then ''*''
      else [])"

function print_cols :: "BMPImage \<Rightarrow> nat \<Rightarrow> nat \<Rightarrow> string \<Rightarrow> string option" where
  "print_cols img i j line =
     (if int j < width (m_image_info img)
      then (case pixel_at img i j of None \<Rightarrow> None
            | Some p \<Rightarrow> print_cols img i (j + 1) (line @ print_pixel p))
      else Some line)"
  by pat_completeness auto
termination
  by (relation "measure (\<lambda>(img, i, j, line). nat (width (m_image_info img)) - j)") auto

text \<open>The output of \<open>print_image\<close> is the list of its lines, each ended by \<open>std::endl\<close>.\<close>

function print_rows :: "BMPImage \<Rightarrow> nat \<Rightarrow> string list \<Rightarrow> string list option" where
  "print_rows img i out =
     (if int i < height (m_image_info img)
      then (case print_cols img i 0 [] of None \<Rightarrow> None
            | Some line \<Rightarrow> print_rows img (i + 1) (out @ [line]))
      else Some out)"
  by pat_completeness auto
termination
  by (relation "measure (\<lambda>(img, i, out). nat (height (m_image_info img)) - i)") auto

definition print_image :: "BMPImage \<Rightarrow> string list option" where
  "print_image img = print_rows img 0 []"

subsection \<open>BMPImageWriter\<close>

text \<open>
  The bytes \<open>ofs.put\<close> receives for one pixel. Writing an alpha that was never assigned
  is \<open>None\<close>.
\<close>

definition put_pixel :: "WORD \<Rightarrow> Pixel \<Rightarrow> BYTE list option" where
  "put_pixel bc p =
     (if bc = 32
      then (case px_a p of None \<Rightarrow> None | Some va \<Rightarrow> Some [px_b p, px_g p, px_r p, va])
      else Some [px_b p, px_g p, px_r p])"

function write_cols :: "BMPImage \<Rightarrow> nat \<Rightarrow> nat \<Rightarrow> BYTE list \<Rightarrow> BYTE list option" where
  "write_cols img i j ofs =
     (if j < size_t_of (width (m_image_info img))
      then (case pixel_at img i j of None \<Rightarrow> None
            | Some p \<Rightarrow>
               (case put_pixel (bit_count (m_image_info img)) p of None \<Rightarrow> None
                | Some bs \<Rightarrow> write_cols img i (j + 1) (ofs @ bs)))
      else Some ofs)"
  by pat_completeness auto
termination
  by (relation "measure (\<lambda>(img, i, j, ofs). size_t_of (width (m_image_info img)) - j)") auto

function write_rows :: "BMPImage \<Rightarrow> int \<Rightarrow> nat \<Rightarrow> BYTE list \<Rightarrow> BYTE list option" where
  "write_rows img padding i ofs =
     (if i < size_t_of (height (m_image_info img))
      then (case write_cols img i 0 ofs of None \<Rightarrow> None
            | Some ofs' \<Rightarrow> write_rows img padding (i + 1) (ofs' @ replicate (nat padding) 0))
      else Some ofs)"
  by pat_completeness auto
termination
  by (relation "measure (\<lambda>(img, padding, i, ofs). size_t_of (height (m_image_info img)) - i)")
    auto

text \<open>
  \<open>write_image\<close>: the header bytes, then the rows \<open>0, 1, ...\<close> of the array. The result
  is the content of the output file.
\<close>

definition write_image :: "BMPImage \<Rightarrow> BYTE list option" where
  "write_image img =
     (if hdrs_size (m_hdrs img) \<le> length (hdrs_bytes (m_hdrs img))
      then write_rows img (padding_of (width (m_image_info img))) 0
             (take (hdrs_size (m_hdrs img)) (hdrs_bytes (m_hdrs img)))
      else None)"

subsection \<open>BMPImageEditor\<close>

datatype mem_error = OutOfBounds

text \<open>The assignment \<open>m_image.pixel_at(x, y) = color\<close>.\<close>

definition assign_pixel_at :: "BMPImage \<Rightarrow> nat \<Rightarrow> nat \<Rightarrow> Pixel \<Rightarrow> mem_error + BMPImage" where
  "assign_pixel_at img x y color =
     (if x < length (m_array_pixels img) \<and> y < length (m_array_pixels img ! x)
      then Inr (img\<lparr>m_array_pixels :=
                  (m_array_pixels img)[x := (m_array_pixels img ! x)[y := color]]\<rparr>)
      else Inl OutOfBounds)"

definition set_pixel :: "BMPImage \<Rightarrow> int \<Rightarrow> int \<Rightarrow> Pixel \<Rightarrow> mem_error + BMPImage" where
  "set_pixel img x y color =
     (if x \<ge> 0 \<and> x < width (m_image_info img) \<and> y \<ge> 0 \<and> y < height (m_image_info img)
      then assign_pixel_at img (nat x) (nat y) color
      else Inr img)"

text \<open>
  The \<open>while (true)\<close> loop of \<open>draw_line\<close>; \<open>x1 y1 dx dy sx sy clr\<close> do not change.
  The coordinates and the error term are \<open>LONG\<close>s, held as the integers they denote.
  Every difference, sum, product, negation and \<open>std::abs\<close> of the source is computed in
  32 bits and written with \<open>wrap32\<close>: signed overflow is undefined in C++, and the
  two's complement wrap-around is what the machine computes. The loop stops at the
  first assignment outside the pixel array, after which the source is undefined. The
  outer \<open>option\<close> is \<open>None\<close> when the loop does not end.
\<close>

partial_function (option) draw_loop :: "int \<Rightarrow> int \<Rightarrow> int \<Rightarrow> int \<Rightarrow> int \<Rightarrow> int \<Rightarrow> Pixel
    \<Rightarrow> BMPImage \<Rightarrow> int \<Rightarrow> int \<Rightarrow> int \<Rightarrow> (mem_error + BMPImage) option" where
  "draw_loop x1 y1 dx dy sx sy clr img x0 y0 err =
     (case set_pixel img x0 y0 clr of Inl e \<Rightarrow> Some (Inl e)
      | Inr img' \<Rightarrow>
         if x0 = x1 \<and> y0 = y1 then Some (Inr img')
         else let e2 = wrap32 (2 * err) in
           if e2 \<ge> dy \<and> x0 = x1 then Some (Inr img')
           else let err' = (if e2 \<ge> dy then wrap32 (err + dy) else err);
                    x0' = (if e2 \<ge> dy then wrap32 (x0 + sx) else x0) in
             if e2 \<le> dx \<and> y0 = y1 then Some (Inr img')
             else let err'' = (if e2 \<le> dx then wrap32 (err' + dx) else err');
                      y0' = (if e2 \<le> dx then wrap32 (y0 + sy) else y0) in
               draw_loop x1 y1 dx dy sx sy clr img' x0' y0' err'')"

definition draw_line :: "BMPImage \<Rightarrow> int \<Rightarrow> int \<Rightarrow> int \<Rightarrow> int \<Rightarrow> Pixel
    \<Rightarrow> (mem_error + BMPImage) option" where
  "draw_line img x0 y0 x1 y1 clr =
     (let dx = wrap32 \<bar>wrap32 (x1 - x0)\<bar>;
          dy = wrap32 (- wrap32 \<bar>wrap32 (y1 - y0)\<bar>);
          sx = (if x0 < x1 then 1 else - 1);
          sy = (if y0 < y1 then 1 else - 1);
          err = wrap32 (dx + dy)
      in draw_loop x1 y1 dx dy sx sy clr img x0 y0 err)"

definition draw_diagonal_cross :: "BMPImage \<Rightarrow> int \<Rightarrow> int \<Rightarrow> int \<Rightarrow> int \<Rightarrow> Pixel
    \<Rightarrow> (mem_error + BMPImage) option" where
  "draw_diagonal_cross img x1 y1 x2 y2 color =
     (case draw_line img x1 y1 x2 y2 color of None \<Rightarrow> None
      | Some (Inl e) \<Rightarrow> Some (Inl e)
      | Some (Inr img') \<Rightarrow> draw_line img' x1 y2 x2 y1 color)"

text \<open>
  One pass of the loop, apart from its call of \<open>set_pixel\<close>: whether one of the three
  \<open>break\<close>s is taken in the state \<open>(x0, y0, err)\<close>, and the state the pass ends in
  when none is.
\<close>

definition line_break :: "int \<Rightarrow> int \<Rightarrow> int \<Rightarrow> int \<Rightarrow> int \<Rightarrow> int \<Rightarrow> int \<Rightarrow> bool" where
  "line_break x1 y1 dx dy x0 y0 err \<longleftrightarrow>
     (x0 = x1 \<and> y0 = y1) \<or> (wrap32 (2 * err) \<ge> dy \<and> x0 = x1)
     \<or> (wrap32 (2 * err) \<le> dx \<and> y0 = y1)"

definition line_step :: "int \<Rightarrow> int \<Rightarrow> int \<Rightarrow> int \<Rightarrow> int \<Rightarrow> int \<Rightarrow> int \<Rightarrow> int \<times> int \<times> int" where
  "line_step dx dy sx sy x0 y0 err =
     (let e2 = wrap32 (2 * err);
          err' = (if e2 \<ge> dy then wrap32 (err + dy) else err);
          x0' = (if e2 \<ge> dy then wrap32 (x0 + sx) else x0);
          err'' = (if e2 \<le> dx then wrap32 (err' + dx) else err');
          y0' = (if e2 \<le> dx then wrap32 (y0 + sy) else y0)
      in (x0', y0', err''))"

text \<open>
  The points at which the loop of \<open>draw_line\<close> calls \<open>set_pixel\<close>, in order: the same
  loop with the call replaced by a record of its coordinates (\<open>draw_loop_unfold\<close> and
  \<open>draw_loop_plot_all\<close> below relate the two). \<open>None\<close> when the loop does not end.
\<close>

partial_function (option) line_points :: "int \<Rightarrow> int \<Rightarrow> int \<Rightarrow> int \<Rightarrow> int \<Rightarrow> int
    \<Rightarrow> int \<Rightarrow> int \<Rightarrow> int \<Rightarrow> (int \<times> int) list option" where
  "line_points x1 y1 dx dy sx sy x0 y0 err =
     (if line_break x1 y1 dx dy x0 y0 err then Some [(x0, y0)]
      else case line_step dx dy sx sy x0 y0 err of
        (x0', y0', err') \<Rightarrow>
          Option.bind (line_points x1 y1 dx dy sx sy x0' y0' err')
            (\<lambda>ps. Some ((x0, y0) # ps)))"


definition sampled_points :: "int \<Rightarrow> int \<Rightarrow> int \<Rightarrow> int \<Rightarrow> (int \<times> int) list option" where
  "sampled_points x0 y0 x1 y1 =
     (let dx = wrap32 \<bar>wrap32 (x1 - x0)\<bar>;
          dy = wrap32 (- wrap32 \<bar>wrap32 (y1 - y0)\<bar>);
          sx = (if x0 < x1 then 1 else - 1);
          sy = (if y0 < y1 then 1 else - 1);
          err = wrap32 (dx + dy)
      in line_points x1 y1 dx dy sx sy x0 y0 err)"

text \<open>\<open>set_pixel\<close> called at each point of a list in turn, up to the first failure.\<close>

fun plot_all :: "BMPImage \<Rightarrow> (int \<times> int) list \<Rightarrow> Pixel \<Rightarrow> mem_error + BMPImage" where
  "plot_all img [] clr = Inr img"
| "plot_all img ((x, y) # ps) clr =
     (case set_pixel img x y clr of Inl e \<Rightarrow> Inl e | Inr img' \<Rightarrow> plot_all img' ps clr)"

subsection \<open>main: reading a file and writing it back\<close>

definition reencode :: "BYTE list \<Rightarrow> BYTE list option" where
  "reencode f = (case read_image f of Inl e \<Rightarrow> None | Inr img \<Rightarrow> write_image img)"

definition decode_pixels :: "BYTE list \<Rightarrow> Pixel list list option" where
  "decode_pixels f = (case read_image f of Inl e \<Rightarrow> None | Inr img \<Rightarrow> Some (m_array_pixels img))"

definition roundtrip_pixels :: "BYTE list \<Rightarrow> Pixel list list option" where
  "roundtrip_pixels f = (case reencode f of None \<Rightarrow> None | Some out \<Rightarrow> decode_pixels out)"

section \<open>The file layout the specification describes\<close>

text \<open>
  The fields of the headers at their fixed offsets (offset of the pixel data at byte 10,
  width at 18, height at 22, bit depth at 28), and the pixel data: rows of
  \<open>width\<close> pixels of 3 or 4 bytes in the order B, G, R, A, each row followed by
  \<open>(4 - (width * 3) % 4) % 4\<close> bytes of padding. A negative height field marks a
  top-down file, whose first row on disk is the top row of the picture; otherwise the
  first row on disk is the bottom row.
\<close>

definition hdr_off_bits :: "BYTE list \<Rightarrow> nat" where
  "hdr_off_bits f = unat (of_nat (le_nat (take 4 (drop 10 f))) :: DWORD)"

definition hdr_width :: "BYTE list \<Rightarrow> int" where
  "hdr_width f = sint (of_nat (le_nat (take 4 (drop 18 f))) :: DWORD)"

definition hdr_height :: "BYTE list \<Rightarrow> int" where
  "hdr_height f = sint (of_nat (le_nat (take 4 (drop 22 f))) :: DWORD)"

definition hdr_bit_count :: "BYTE list \<Rightarrow> WORD" where
  "hdr_bit_count f = of_nat (le_nat (take 2 (drop 28 f)))"

definition top_down_file :: "BYTE list \<Rightarrow> bool" where
  "top_down_file f \<longleftrightarrow> hdr_height f < 0"

definition img_rows :: "BYTE list \<Rightarrow> nat" where
  "img_rows f = nat \<bar>hdr_height f\<bar>"

definition img_cols :: "BYTE list \<Rightarrow> nat" where
  "img_cols f = nat (hdr_width f)"

definition bytes_per_pixel :: "WORD \<Rightarrow> nat" where
  "bytes_per_pixel bc = (if bc = 32 then 4 else 3)"

definition row_padding :: "int \<Rightarrow> nat" where
  "row_padding w = nat ((4 - (w * 3) mod 4) mod 4)"

definition file_pixel :: "BYTE list \<Rightarrow> WORD \<Rightarrow> nat \<Rightarrow> Pixel" where
  "file_pixel f bc p =
     \<lparr>px_r = f ! (p + 2), px_g = f ! (p + 1), px_b = f ! p,
      px_a = (if bc = 32 then Some (f ! (p + 3)) else None)\<rparr>"

definition file_row :: "BYTE list \<Rightarrow> WORD \<Rightarrow> nat \<Rightarrow> nat \<Rightarrow> Pixel list" where
  "file_row f bc w p = map (\<lambda>k. file_pixel f bc (p + k * bytes_per_pixel bc)) [0..<w]"

text \<open>Pixel \<open>j\<close> of the \<open>i\<close>-th row stored in the file.\<close>

definition disk_pixel :: "BYTE list \<Rightarrow> nat \<Rightarrow> nat \<Rightarrow> Pixel" where
  "disk_pixel f i j =
     file_pixel f (hdr_bit_count f)
       (hdr_off_bits f
        + i * (img_cols f * bytes_per_pixel (hdr_bit_count f) + row_padding (hdr_width f))
        + j * bytes_per_pixel (hdr_bit_count f))"

text \<open>Pixel \<open>j\<close> of the \<open>v\<close>-th row of the picture counted from its top.\<close>

definition visual_pixel :: "BYTE list \<Rightarrow> nat \<Rightarrow> nat \<Rightarrow> Pixel" where
  "visual_pixel f v j = disk_pixel f (if top_down_file f then v else img_rows f - 1 - v) j"

text \<open>The bytes of a pixel and of a padded row in a file.\<close>

definition pixel_bytes :: "WORD \<Rightarrow> Pixel \<Rightarrow> BYTE list" where
  "pixel_bytes bc p =
     [px_b p, px_g p, px_r p]
     @ (if bc = 32 then (case px_a p of None \<Rightarrow> [] | Some va \<Rightarrow> [va]) else [])"

definition row_bytes :: "WORD \<Rightarrow> nat \<Rightarrow> Pixel list \<Rightarrow> BYTE list" where
  "row_bytes bc pad row = concat (map (pixel_bytes bc) row) @ replicate pad 0"

text \<open>
  The shape of the pixel array that the class keeps: as many rows as the height and as
  many pixels in each as the width.
\<close>

definition well_shaped :: "BMPImage \<Rightarrow> bool" where
  "well_shaped img \<longleftrightarrow>
     0 \<le> height (m_image_info img)
     \<and> (0 < height (m_image_info img) \<longrightarrow> 0 \<le> width (m_image_info img))
     \<and> length (m_array_pixels img) = nat (height (m_image_info img))
     \<and> (\<forall>row \<in> set (m_array_pixels img). length row = nat (width (m_image_info img)))"

text \<open>
  An image as \<open>read_image\<close> builds it: of that shape, with dimensions below \<open>2^31\<close>,
  an alpha in every pixel at 32 bits, and as many header bytes as their size.
\<close>

definition wf_image :: "BMPImage \<Rightarrow> bool" where
  "wf_image img \<longleftrightarrow>
     0 \<le> height (m_image_info img) \<and> height (m_image_info img) < 2 ^ 31
     \<and> width (m_image_info img) < 2 ^ 31
     \<and> (0 < height (m_image_info img) \<longrightarrow> 0 \<le> width (m_image_info img))
     \<and> length (m_array_pixels img) = nat (height (m_image_info img))
     \<and> (\<forall>row \<in> set (m_array_pixels img).
           length row = nat (width (m_image_info img))
           \<and> (bit_count (m_image_info img) = 32 \<longrightarrow> (\<forall>p \<in> set row. px_a p \<noteq> None)))
     \<and> hdrs_size (m_hdrs img) = length (hdrs_bytes (m_hdrs img))"



section \<open>Example files\<close>

text \<open>
  Four files with the usual 54 bytes of headers. \<open>td_file\<close> and \<open>bu_file\<close> hold the
  same picture of one column and two rows at 24 bits, the first top-down (height -2), the
  second bottom-up (height 2); the top pixel is (R, G, B) = (3, 2, 1), the bottom one
  (6, 5, 4). \<open>wide_file\<close> is two pixels wide and one high, a black and a white pixel.
  \<open>alpha_file\<close> has one column and two rows at 32 bits. \<open>sq_file\<close> is two pixels
  wide and two high, bottom-up at 24 bits.
\<close>

definition td_file :: "BYTE list" where
  "td_file =
     [0x42, 0x4D, 0x3E, 0, 0, 0, 0, 0, 0, 0, 0x36, 0, 0, 0,
      0x28, 0, 0, 0, 1, 0, 0, 0, 0xFE, 0xFF, 0xFF, 0xFF, 1, 0, 0x18, 0,
      0, 0, 0, 0, 8, 0, 0, 0, 0x13, 0x0B, 0, 0, 0x13, 0x0B, 0, 0, 0, 0, 0, 0, 0, 0, 0, 0,
      1, 2, 3, 0, 4, 5, 6, 0]"

definition bu_file :: "BYTE list" where
  "bu_file =
     [0x42, 0x4D, 0x3E, 0, 0, 0, 0, 0, 0, 0, 0x36, 0, 0, 0,
      0x28, 0, 0, 0, 1, 0, 0, 0, 2, 0, 0, 0, 1, 0, 0x18, 0,
      0, 0, 0, 0, 8, 0, 0, 0, 0x13, 0x0B, 0, 0, 0x13, 0x0B, 0, 0, 0, 0, 0, 0, 0, 0, 0, 0,
      4, 5, 6, 0, 1, 2, 3, 0]"

definition wide_file :: "BYTE list" where
  "wide_file =
     [0x42, 0x4D, 0x3E, 0, 0, 0, 0, 0, 0, 0, 0x36, 0, 0, 0,
      0x28, 0, 0, 0, 2, 0, 0, 0, 1, 0, 0, 0, 1, 0, 0x18, 0,
      0, 0, 0, 0, 8, 0, 0, 0, 0x13, 0x0B, 0, 0, 0x13, 0x0B, 0, 0, 0, 0, 0, 0, 0, 0, 0, 0,
      0, 0, 0, 0xFF, 0xFF, 0xFF, 0, 0]"

definition alpha_file :: "BYTE list" where
  "alpha_file =
     [0x42, 0x4D, 0x40, 0, 0, 0, 0, 0, 0, 0, 0x36, 0, 0, 0,
      0x28, 0, 0, 0, 1, 0, 0, 0, 2, 0, 0, 0, 1, 0, 0x20, 0,
      0, 0, 0, 0, 10, 0, 0, 0, 0x13, 0x0B, 0, 0, 0x13, 0x0B, 0, 0, 0, 0, 0, 0, 0, 0, 0, 0,
      1, 2, 3, 4, 0, 5, 6, 7, 8, 0]"


definition headers54 :: "BYTE list \<Rightarrow> BMPHeaders" where
  "headers54 f = \<lparr>hdrs_bytes = take 54 f, hdrs_size = 54\<rparr>"

definition wide_img :: BMPImage where
  "wide_img =
     \<lparr>m_array_pixels = [[\<lparr>px_r = 0, px_g = 0, px_b = 0, px_a = None\<rparr>,
                         \<lparr>px_r = 255, px_g = 255, px_b = 255, px_a = None\<rparr>]],
      m_image_info = \<lparr>width = 2, height = 1, bit_count = 24\<rparr>,
      m_hdrs = headers54 wide_file\<rparr>"

definition td_img :: BMPImage where
  "td_img =
     \<lparr>m_array_pixels = [[\<lparr>px_r = 6, px_g = 5, px_b = 4, px_a = None\<rparr>],
                         [\<lparr>px_r = 3, px_g = 2, px_b = 1, px_a = None\<rparr>]],
      m_image_info = \<lparr>width = 1, height = 2, bit_count = 24\<rparr>,
      m_hdrs = headers54 td_file\<rparr>"

definition bu_img :: BMPImage where
  "bu_img = td_img\<lparr>m_hdrs := headers54 bu_file\<rparr>"

definition alpha_img :: BMPImage where
  "alpha_img =
     \<lparr>m_array_pixels = [[\<lparr>px_r = 3, px_g = 2, px_b = 1, px_a = Some 4\<rparr>],
                         [\<lparr>px_r = 7, px_g = 6, px_b = 5, px_a = Some 8\<rparr>]],
      m_image_info = \<lparr>width = 1, height = 2, bit_count = 32\<rparr>,
      m_hdrs = headers54 alpha_file\<rparr>"


text \<open>\<open>td_file\<close> with its two rows of pixel data exchanged.\<close>

definition td_flipped :: "BYTE list" where
  "td_flipped = take 54 td_file @ [4, 5, 6, 0, 1, 2, 3, 0]"

text \<open>The colour \<open>{0,0,0}\<close> that \<open>main\<close> draws with.\<close>

definition black :: Pixel where
  "black = \<lparr>px_r = 0, px_g = 0, px_b = 0, px_a = Some 0\<rparr>"

section \<open>The signature check\<close>

lemma take_2_drop: "p + 2 \<le> length f \<Longrightarrow> take 2 (drop p f) = [f ! p, f ! (p + 1)]"
proof -
  assume a: "p + 2 \<le> length f"
  have "take 2 (drop p f) = take (Suc (Suc 0)) (drop p f)" by (simp add: numeral_2_eq_2)
  also have "\<dots> = [f ! p, f ! (p + 1)]"
    using a by (simp add: take_Suc_conv_app_nth)
  finally show ?thesis .
qed

lemma unat_byte_lt: "unat (x :: BYTE) < 256"
  using unsigned_less [of x, where 'a = nat] by simp

lemma le16_decode:
  assumes "(a::nat) < 256"
  shows "a + 256 * b = 19778 \<longleftrightarrow> a = 66 \<and> b = 77"
proof
  assume e: "a + 256 * b = 19778"
  have "b = (a + 256 * b) div 256" using assms by simp
  then have b: "b = 77" unfolding e by simp
  have "a = (a + 256 * b) mod 256" using assms by simp
  then have "a = 66" unfolding e by simp
  with b show "a = 66 \<and> b = 77" by simp
next
  assume "a = 66 \<and> b = 77"
  then show "a + 256 * b = 19778" by simp
qed

lemma sig_word_eq:
  "(of_nat (unat (b0 :: BYTE) + 256 * unat (b1 :: BYTE)) :: WORD) = 0x4D42
     \<longleftrightarrow> b0 = 0x42 \<and> b1 = 0x4D"
proof -
  have lt0: "unat b0 < 256" by (rule unat_byte_lt)
  have lt1: "unat b1 < 256" by (rule unat_byte_lt)
  have lt: "unat b0 + 256 * unat b1 < 65536" using lt0 lt1 by simp
  have "(of_nat (unat b0 + 256 * unat b1) :: WORD) = 0x4D42
          \<longleftrightarrow> unat b0 + 256 * unat b1 = 19778"
  proof
    assume "(of_nat (unat b0 + 256 * unat b1) :: WORD) = 0x4D42"
    then have "unat (0x4D42 :: WORD) = unat b0 + 256 * unat b1"
      using lt by (intro of_nat_inverse) simp_all
    then show "unat b0 + 256 * unat b1 = 19778" by simp
  next
    assume "unat b0 + 256 * unat b1 = 19778"
    then show "(of_nat (unat b0 + 256 * unat b1) :: WORD) = 0x4D42" by simp
  qed
  also have "\<dots> \<longleftrightarrow> unat b0 = 66 \<and> unat b1 = 77" using lt0 by (rule le16_decode)
  also have "\<dots> \<longleftrightarrow> b0 = 0x42 \<and> b1 = 0x4D"
    by (simp add: word_unat_eq_iff)
  finally show ?thesis .
qed

lemma wrong_signature_rejected:
  assumes "2 \<le> length f" and "\<not> (f ! 0 = 0x42 \<and> f ! 1 = 0x4D)"
  shows "read_image f = Inl InvalidSignature"
proof -
  have "read_signature f 0 = Some (of_nat (unat (f ! 0) + 256 * unat (f ! 1)), 2)"
    using assms(1) take_2_drop [of 0 f]
    by (simp add: read_signature_def read_WORD_def le_nat_def)
  moreover have "(of_nat (unat (f ! 0) + 256 * unat (f ! 1)) :: WORD) \<noteq> 0x4D42"
    using assms(2) sig_word_eq [of "f ! 0" "f ! 1"] by blast
  ultimately show ?thesis unfolding read_image_def by simp
qed

text \<open>
  C6. A file whose first two bytes are not 0x42, 0x4D is rejected: \<open>read_image\<close> ends
  with the error \<open>InvalidSignature\<close> (the \<open>std::runtime_error\<close> "Wrong file signature")
  and so returns no image. The file has to hold two bytes for the signature to be read
  at all.
\<close>

theorem invalid_signature:
  assumes "2 \<le> length f" and "\<not> (f ! 0 = 0x42 \<and> f ! 1 = 0x4D)"
  shows "read_image f = Inl InvalidSignature"
  using assms by (rule wrong_signature_rejected)

theorem invalid_signature_witness:
  "2 \<le> length [0x50, 0x4B, 3, 4 :: BYTE]
   \<and> \<not> ([0x50, 0x4B, 3, 4 :: BYTE] ! 0 = 0x42 \<and> [0x50, 0x4B, 3, 4 :: BYTE] ! 1 = 0x4D)
   \<and> read_image [0x50, 0x4B, 3, 4] = Inl InvalidSignature"
  using invalid_signature [of "[0x50, 0x4B, 3, 4]"] by simp

section \<open>The row padding\<close>

lemma wrap32_mod4: "wrap32 x mod 4 = x mod 4"
proof -
  have "wrap32 x = take_bit 32 x - 2 ^ 32 * of_bool (bit x 31)"
    unfolding wrap32_def by (simp add: signed_of_int signed_take_bit_eq_take_bit_minus)
  then have "wrap32 x mod 4 = (x mod 2 ^ 32 - 4 * (2 ^ 30 * of_bool (bit x 31))) mod 4"
    by (simp add: take_bit_eq_mod)
  also have "\<dots> = (x mod 2 ^ 32) mod 4"
    by (metis mod_mult_self1_is_0 mod_diff_right_eq diff_zero mult.commute)
  also have "\<dots> = x mod 4"
    by (rule mod_mod_cancel) simp
  finally show ?thesis .
qed

lemma c_rem_4_mod: "c_rem k 4 mod 4 = k mod 4"
proof (cases "0 \<le> k")
  case True
  then show ?thesis by (cases "k = 0") (simp_all add: c_rem_def)
next
  case False
  then have "c_rem k 4 = - ((- k) mod 4)" by (simp add: c_rem_def)
  then show ?thesis by (simp add: mod_minus_eq)
qed

lemma c_rem_4_bounds: "- 3 \<le> c_rem k 4 \<and> c_rem k 4 \<le> 3"
proof -
  have "0 \<le> \<bar>k\<bar> mod 4" "\<bar>k\<bar> mod 4 < 4" by simp_all
  moreover have "c_rem k 4 = \<bar>k\<bar> mod 4 \<or> c_rem k 4 = - (\<bar>k\<bar> mod 4) \<or> c_rem k 4 = 0"
    by (cases "0 \<le> k"; cases "k = 0") (simp_all add: c_rem_def)
  ultimately show ?thesis by linarith
qed

lemma c_rem_4_pos: "0 < k \<Longrightarrow> c_rem k 4 = k mod 4"
  by (simp add: c_rem_def)

lemma padding_of_eq: "padding_of w = (4 - (w * 3) mod 4) mod 4"
proof -
  define r where "r = c_rem (wrap32 (w * 3)) 4"
  have b: "- 3 \<le> r \<and> r \<le> 3" unfolding r_def by (rule c_rem_4_bounds)
  have m: "r mod 4 = (w * 3) mod 4" unfolding r_def by (simp add: c_rem_4_mod wrap32_mod4)
  have "padding_of w = c_rem (4 - r) 4" by (simp add: padding_of_def r_def)
  also have "\<dots> = (4 - r) mod 4" using b by (intro c_rem_4_pos) simp
  also have "\<dots> = (4 - r mod 4) mod 4" by (rule mod_diff_right_eq [symmetric])
  finally show ?thesis using m by simp
qed

lemma padding_of_range: "0 \<le> padding_of w \<and> padding_of w < 4"
  by (simp add: padding_of_eq)

section \<open>What the reader stores\<close>

declare read_row.simps [simp del] read_rows.simps [simp del]

lemma read_pixel_SomeD:
  assumes "read_pixel f bc p = Some (px, p')"
  shows "px = file_pixel f bc p \<and> p' = p + bytes_per_pixel bc \<and> p' \<le> length f"
  using assms
  by (auto simp: read_pixel_def read_BYTE_def file_pixel_def bytes_per_pixel_def
      numeral_3_eq_3 split: if_splits)

lemma read_row_SomeD:
  "read_row f bc w j p row = Some (row', p') \<Longrightarrow> j \<le> w \<Longrightarrow>
     row' = row @ map (\<lambda>k. file_pixel f bc (p + k * bytes_per_pixel bc)) [0..<w - j]
     \<and> p' = p + (w - j) * bytes_per_pixel bc"
proof (induction f bc w j p row rule: read_row.induct)
  case (1 f bc w j p row)
  show ?case
  proof (cases "j < w")
    case False
    with "1.prems" show ?thesis by (simp add: read_row.simps)
  next
    case True
    then obtain px p1 where rp: "read_pixel f bc p = Some (px, p1)"
      and rec: "read_row f bc w (j + 1) p1 (row @ [px]) = Some (row', p')"
      using "1.prems"(1) by (auto simp: read_row.simps [of f bc w j] split: option.splits)
    from read_pixel_SomeD [OF rp] have px: "px = file_pixel f bc p"
      and p1: "p1 = p + bytes_per_pixel bc" by simp_all
    from "1.IH" [OF True rp refl rec] True
    have r: "row' = (row @ [px]) @ map (\<lambda>k. file_pixel f bc (p1 + k * bytes_per_pixel bc)) [0..<w - (j + 1)]"
      and e: "p' = p1 + (w - (j + 1)) * bytes_per_pixel bc" by simp_all
    from True obtain n where n: "w - j = Suc n" by (cases "w - j") simp_all
    then have n': "w - (j + 1) = n" by simp
    have "map (\<lambda>k. file_pixel f bc (p + k * bytes_per_pixel bc)) [0..<Suc n]
          = px # map (\<lambda>k. file_pixel f bc (p1 + k * bytes_per_pixel bc)) [0..<n]"
      unfolding map_upt_Suc by (simp add: px p1 add.assoc)
    with r e show ?thesis unfolding n n' p1 by (simp add: algebra_simps)
  qed
qed

lemma read_row_file_row:
  "read_row f bc w 0 p [] = Some (row, p') \<Longrightarrow>
     row = file_row f bc w p \<and> p' = p + w * bytes_per_pixel bc"
  using read_row_SomeD [of f bc w 0 p "[]" row p'] by (simp add: file_row_def)

lemma read_rows_SomeD:
  "read_rows f bc w h td pad i p arr = Some arr' \<Longrightarrow> i \<le> h \<Longrightarrow> length arr = h \<Longrightarrow>
     length arr' = h \<and>
     (\<forall>r<h. arr' ! r =
        (if (if td then r < h - i else i \<le> r)
         then file_row f bc w
                (p + ((if td then h - 1 - r else r) - i) * (w * bytes_per_pixel bc + nat pad))
         else arr ! r))"
proof (induction f bc w h td pad i p arr rule: read_rows.induct)
  case (1 f bc w h td pad i p arr)
  let ?s = "w * bytes_per_pixel bc + nat pad"
  show ?case
  proof (cases "i < h")
    case False
    with "1.prems" show ?thesis by (auto simp: read_rows.simps [of f bc w h td pad i])
  next
    case True
    define fr where "fr = (if td then h - 1 - i else i)"
    from True "1.prems"(1) obtain row p1 where rr: "read_row f bc w 0 p [] = Some (row, p1)"
      and rec: "read_rows f bc w h td pad (i + 1) (if pad > 0 then p1 + nat pad else p1)
                  (arr[fr := row]) = Some arr'"
      by (auto simp: read_rows.simps [of f bc w h td pad i] fr_def Let_def split: option.splits)
    from read_row_file_row [OF rr] have row: "row = file_row f bc w p"
      and p1: "p1 = p + w * bytes_per_pixel bc" by simp_all
    have pos: "(if pad > 0 then p1 + nat pad else p1) = p + ?s" by (simp add: p1)
    have frlt: "fr < h" using True by (simp add: fr_def)
    from "1.IH" [OF True refl rr refl rec [unfolded fr_def]] True "1.prems"(3)
    have len: "length arr' = h"
      and ih: "\<And>r. r < h \<Longrightarrow> arr' ! r =
        (if (if td then r < h - (i + 1) else i + 1 \<le> r)
         then file_row f bc w (p + ?s + ((if td then h - 1 - r else r) - (i + 1)) * ?s)
         else (arr[fr := row]) ! r)"
      unfolding pos fr_def by simp_all
    have "arr' ! r =
        (if (if td then r < h - i else i \<le> r)
         then file_row f bc w (p + ((if td then h - 1 - r else r) - i) * ?s)
         else arr ! r)" if r: "r < h" for r
    proof -
      define q where "q = (if td then h - 1 - r else r)"
      define c where "c \<longleftrightarrow> (if td then r < h - i else i \<le> r)"
      define c' where "c' \<longleftrightarrow> (if td then r < h - (i + 1) else i + 1 \<le> r)"
      have ih': "arr' ! r = (if c' then file_row f bc w (p + ?s + (q - (i + 1)) * ?s)
                             else (arr[fr := row]) ! r)"
        using ih [OF r] by (simp only: q_def c'_def)
      have goal: "arr' ! r = (if c then file_row f bc w (p + (q - i) * ?s) else arr ! r)"
      proof (cases "r = fr")
        case True
        then have "\<not> c'" using \<open>i < h\<close> by (auto simp: fr_def c'_def)
        then have "arr' ! r = row" using ih' True frlt "1.prems"(3) by simp
        moreover have "c" using True \<open>i < h\<close> by (auto simp: fr_def c_def)
        moreover have "q - i = 0" using True \<open>i < h\<close> by (auto simp: fr_def q_def)
        ultimately show ?thesis by (simp add: row)
      next
        case False
        show ?thesis
        proof (cases c)
          case True
          then have a: "c'" using False r by (auto simp: fr_def c_def c'_def split: if_splits)
          then have "q - i = Suc (q - (i + 1))"
            using r by (auto simp: q_def c'_def split: if_splits)
          then have "p + (q - i) * ?s = p + ?s + (q - (i + 1)) * ?s" by simp
          then show ?thesis using ih' a True by (simp only: if_True)
        next
          case nt: False
          then have a: "\<not> c'" by (auto simp: c_def c'_def split: if_splits)
          show ?thesis using ih' a nt False by simp
        qed
      qed
      then show ?thesis by (simp only: q_def c_def)
    qed
    with len show ?thesis by simp
  qed
qed

lemma read_WORD_SomeD:
  "read_WORD f p = Some (v, p') \<Longrightarrow>
     p + 2 \<le> length f \<and> v = of_nat (le_nat (take 2 (drop p f))) \<and> p' = p + 2"
  by (auto simp: read_WORD_def split: if_splits)

lemma read_DWORD_SomeD:
  "read_DWORD f p = Some (v, p') \<Longrightarrow>
     p + 4 \<le> length f \<and> v = of_nat (le_nat (take 4 (drop p f))) \<and> p' = p + 4"
  by (auto simp: read_DWORD_def split: if_splits)

lemma read_LONG_SomeD:
  "read_LONG f p = Some (v, p') \<Longrightarrow>
     p + 4 \<le> length f \<and> v = sint (of_nat (le_nat (take 4 (drop p f))) :: DWORD) \<and> p' = p + 4"
  by (auto simp: read_LONG_def dest: read_DWORD_SomeD split: option.splits)

lemma read_image_InrD:
  assumes "read_image f = Inr img"
  shows "30 \<le> length f" and "hdr_off_bits f \<le> length f"
    and "hdr_height f \<noteq> - (2 ^ 31)"
    and "0 < \<bar>hdr_height f\<bar> \<Longrightarrow> 0 \<le> hdr_width f"
    and "m_image_info img =
           \<lparr>width = hdr_width f, height = \<bar>hdr_height f\<bar>, bit_count = hdr_bit_count f\<rparr>"
    and "m_hdrs img = \<lparr>hdrs_bytes = take (hdr_off_bits f) f, hdrs_size = hdr_off_bits f\<rparr>"
    and "read_rows f (hdr_bit_count f) (img_cols f) (img_rows f) (top_down_file f)
           (padding_of (hdr_width f)) 0 (hdr_off_bits f) (replicate (img_rows f) [])
         = Some (m_array_pixels img)"
proof -
  note a0 = assms [unfolded read_image_def read_signature_def]
  obtain sig p1 where s: "read_WORD f 0 = Some (sig, p1)"
    using a0 by (cases "read_WORD f 0") auto
  from read_WORD_SomeD [OF s] have p1: "p1 = 2" by simp
  have sg: "sig = 0x4D42" using a0 unfolding s by (simp split: if_splits)
  note a1 = a0 [unfolded s, simplified sg p1 skip_bytes_def, simplified]
  obtain ob p2 where o: "read_DWORD f 10 = Some (ob, p2)"
    using a1 by (cases "read_DWORD f 10") auto
  from read_DWORD_SomeD [OF o] have p2: "p2 = 14" and ob: "unat ob = hdr_off_bits f"
    by (simp_all add: hdr_off_bits_def)
  note a2 = a1 [unfolded o, simplified p2 skip_bytes_def, simplified]
  obtain w p3 where w: "read_LONG f 18 = Some (w, p3)"
    using a2 by (cases "read_LONG f 18") auto
  from read_LONG_SomeD [OF w] have p3: "p3 = 22" and wv: "w = hdr_width f"
    by (simp_all add: hdr_width_def)
  note a3 = a2 [unfolded w, simplified p3, simplified]
  obtain h p4 where h: "read_LONG f 22 = Some (h, p4)"
    using a3 by (cases "read_LONG f 22") auto
  from read_LONG_SomeD [OF h] have p4: "p4 = 26" and hv: "h = hdr_height f"
    by (simp_all add: hdr_height_def)
  note a4 = a3 [unfolded h, simplified p4, simplified]
  have hne: "h \<noteq> - 2147483648" using a4 by (simp split: if_splits)
  note a5 = a4 [simplified hne Let_def skip_bytes_def, simplified]
  obtain bc p5 where b: "read_WORD f 28 = Some (bc, p5)"
    using a5 by (cases "read_WORD f 28") auto
  from read_WORD_SomeD [OF b] have l30: "30 \<le> length f" and bv: "bc = hdr_bit_count f"
    by (simp_all add: hdr_bit_count_def)
  note a6 = a5 [unfolded b, simplified]
  have nw: "\<not> (0 < (if h < 0 then \<bar>h\<bar> else h) \<and> w < 0)" using a6 by (simp split: if_splits)
  note a7 = a6 [simplified nw, simplified]
  obtain arr where ar: "read_array_pixels f (unat ob) w (if h < 0 then \<bar>h\<bar> else h) bc (h < 0) = Some arr"
    using a7 by (cases "read_array_pixels f (unat ob) w (if h < 0 then \<bar>h\<bar> else h) bc (h < 0)") auto
  note a8 = a7 [unfolded ar, simplified]
  obtain hd where hd: "read_headers f (unat ob) = Some hd"
    using a8 by (cases "read_headers f (unat ob)") auto
  note a9 = a8 [unfolded hd, simplified]
  have habs: "(if h < 0 then \<bar>h\<bar> else h) = \<bar>h\<bar>" by simp
  have img: "img = \<lparr>m_array_pixels = arr,
               m_image_info = \<lparr>width = w, height = \<bar>h\<bar>, bit_count = bc\<rparr>,
               m_hdrs = hd\<rparr>"
    using a9 by (simp only: habs)
  have hdv: "hd = \<lparr>hdrs_bytes = take (hdr_off_bits f) f, hdrs_size = hdr_off_bits f\<rparr>"
    and obl: "hdr_off_bits f \<le> length f"
    using hd by (simp_all add: read_headers_def ob split: if_splits)
  have nw': "\<not> (0 < \<bar>h\<bar> \<and> w < 0)" using nw unfolding habs .
  have arr: "read_rows f bc (nat w) (nat \<bar>h\<bar>) (h < 0) (padding_of w) 0 (hdr_off_bits f)
               (replicate (nat \<bar>h\<bar>) []) = Some arr"
    using ar by (simp only: habs ob read_array_pixels_def)
  show "30 \<le> length f" by (rule l30)
  show "hdr_height f \<noteq> - (2 ^ 31)" using hne hv by simp
  show "hdr_off_bits f \<le> length f" by (rule obl)
  show "0 < \<bar>hdr_height f\<bar> \<Longrightarrow> 0 \<le> hdr_width f"
    using nw' hv wv by linarith
  show "m_image_info img =
           \<lparr>width = hdr_width f, height = \<bar>hdr_height f\<bar>, bit_count = hdr_bit_count f\<rparr>"
    by (simp add: img hv wv bv)
  show "m_hdrs img = \<lparr>hdrs_bytes = take (hdr_off_bits f) f, hdrs_size = hdr_off_bits f\<rparr>"
    by (simp add: img hdv)
  show "read_rows f (hdr_bit_count f) (img_cols f) (img_rows f) (top_down_file f)
           (padding_of (hdr_width f)) 0 (hdr_off_bits f) (replicate (img_rows f) [])
         = Some (m_array_pixels img)"
    using arr by (simp add: img hv wv bv img_cols_def img_rows_def top_down_file_def)
qed

lemma sint32_bounds: "- (2 ^ 31) \<le> sint (w :: DWORD) \<and> sint w < 2 ^ 31"
  using sint_ge [of w] sint_lt [of w] by simp

lemma file_row_length [simp]: "length (file_row f bc w p) = w"
  by (simp add: file_row_def)

lemma file_row_nth:
  "j < w \<Longrightarrow> file_row f bc w p ! j = file_pixel f bc (p + j * bytes_per_pixel bc)"
  by (simp add: file_row_def)

lemma nat_padding_of: "nat (padding_of w) = row_padding w"
  by (simp add: padding_of_eq row_padding_def)

lemma read_image_rows:
  assumes "read_image f = Inr img"
  shows "length (m_array_pixels img) = img_rows f"
    and "r < img_rows f \<Longrightarrow>
           m_array_pixels img ! r =
             file_row f (hdr_bit_count f) (img_cols f)
               (hdr_off_bits f
                + (if top_down_file f then img_rows f - 1 - r else r)
                  * (img_cols f * bytes_per_pixel (hdr_bit_count f)
                     + row_padding (hdr_width f)))"
proof -
  note rr = read_rows_SomeD [OF read_image_InrD(7) [OF assms], simplified, unfolded nat_padding_of]
  from rr show "length (m_array_pixels img) = img_rows f" by simp
  assume "r < img_rows f"
  with rr show "m_array_pixels img ! r =
             file_row f (hdr_bit_count f) (img_cols f)
               (hdr_off_bits f
                + (if top_down_file f then img_rows f - 1 - r else r)
                  * (img_cols f * bytes_per_pixel (hdr_bit_count f)
                     + row_padding (hdr_width f)))"
    by (simp split: if_splits)
qed

lemma read_image_disk_pixel:
  assumes "read_image f = Inr img" "r < img_rows f" "j < img_cols f"
  shows "m_array_pixels img ! r ! j
         = disk_pixel f (if top_down_file f then img_rows f - 1 - r else r) j"
  using read_image_rows(2) [OF assms(1,2)] assms(3)
  by (simp add: file_row_nth disk_pixel_def)

lemma read_image_row_length:
  assumes "read_image f = Inr img" "r < img_rows f"
  shows "length (m_array_pixels img ! r) = img_cols f"
  using read_image_rows(2) [OF assms] by simp

lemma file_pixel_alpha: "px_a (file_pixel f 32 p) \<noteq> None"
  by (simp add: file_pixel_def)

lemma read_image_wf:
  assumes "read_image f = Inr img"
  shows "wf_image img"
proof -
  note d = read_image_InrD [OF assms]
  have hb: "\<bar>hdr_height f\<bar> < 2 ^ 31" "hdr_width f < 2 ^ 31"
    using sint32_bounds [of "of_nat (le_nat (take 4 (drop 22 f)))"]
      sint32_bounds [of "of_nat (le_nat (take 4 (drop 18 f)))"] d(3)
    by (auto simp: hdr_height_def hdr_width_def)
  have rows: "\<forall>row \<in> set (m_array_pixels img).
           length row = nat (hdr_width f)
           \<and> (hdr_bit_count f = 32 \<longrightarrow> (\<forall>p \<in> set row. px_a p \<noteq> None))"
  proof
    fix row assume "row \<in> set (m_array_pixels img)"
    then obtain r where r: "r < img_rows f" "row = m_array_pixels img ! r"
      using read_image_rows(1) [OF assms] by (auto simp: in_set_conv_nth)
    from read_image_rows(2) [OF assms r(1)] r(2)
    show "length row = nat (hdr_width f)
           \<and> (hdr_bit_count f = 32 \<longrightarrow> (\<forall>p \<in> set row. px_a p \<noteq> None))"
      by (auto simp: img_cols_def file_row_def file_pixel_def)
  qed
  show ?thesis
    unfolding wf_image_def d(5) d(6)
    using hb d(4) rows read_image_rows(1) [OF assms] d(2)
    by (simp add: img_rows_def)
qed

section \<open>What the writer and the printer produce\<close>

declare print_cols.simps [simp del] print_rows.simps [simp del]
  write_cols.simps [simp del] write_rows.simps [simp del]

lemma wf_image_well_shaped: "wf_image img \<Longrightarrow> well_shaped img"
  by (simp add: wf_image_def well_shaped_def)

lemma size_t_of_nat: "0 \<le> x \<Longrightarrow> x < 2 ^ 31 \<Longrightarrow> size_t_of x = nat x"
proof -
  assume a: "0 \<le> x" "x < 2 ^ 31"
  then have "x < 2 ^ 64" by (rule_tac order_less_trans [of x "2 ^ 31"]) simp_all
  with a(1) show ?thesis by (simp add: size_t_of_def)
qed

lemma put_pixel_Some:
  "(bc = 32 \<longrightarrow> px_a p \<noteq> None) \<Longrightarrow> put_pixel bc p = Some (pixel_bytes bc p)"
  by (auto simp: put_pixel_def pixel_bytes_def)

lemma write_cols_Some:
  assumes "i < length (m_array_pixels img)"
    and "length (m_array_pixels img ! i) = size_t_of (width (m_image_info img))"
    and "bit_count (m_image_info img) = 32 \<longrightarrow> (\<forall>p \<in> set (m_array_pixels img ! i). px_a p \<noteq> None)"
    and "j \<le> length (m_array_pixels img ! i)"
  shows "write_cols img i j ofs =
           Some (ofs @ concat (map (pixel_bytes (bit_count (m_image_info img)))
                                 (drop j (m_array_pixels img ! i))))"
  using assms(4)
proof (induction "length (m_array_pixels img ! i) - j" arbitrary: j ofs)
  case 0
  then show ?case using assms(2) by (subst write_cols.simps) simp
next
  case (Suc n)
  let ?row = "m_array_pixels img ! i"
  from Suc.hyps(2) have j: "j < length ?row" by simp
  then have pa: "pixel_at img i j = Some (?row ! j)" using assms(1) by (simp add: pixel_at_def)
  have "?row ! j \<in> set ?row" using j by simp
  then have pp: "put_pixel (bit_count (m_image_info img)) (?row ! j)
                 = Some (pixel_bytes (bit_count (m_image_info img)) (?row ! j))"
    using assms(3) by (intro put_pixel_Some) simp
  have ih: "write_cols img i (j + 1) (ofs @ pixel_bytes (bit_count (m_image_info img)) (?row ! j)) =
           Some ((ofs @ pixel_bytes (bit_count (m_image_info img)) (?row ! j))
                 @ concat (map (pixel_bytes (bit_count (m_image_info img))) (drop (j + 1) ?row)))"
    using Suc.hyps(2) j by (intro Suc.hyps(1)) simp_all
  have "drop j ?row = ?row ! j # drop (j + 1) ?row"
    using j by (simp add: Cons_nth_drop_Suc)
  then show ?case
    using j assms(2) pa pp ih by (subst write_cols.simps) simp
qed

lemma write_rows_Some:
  assumes "wf_image img" and "i \<le> length (m_array_pixels img)"
  shows "write_rows img pad i ofs =
           Some (ofs @ concat (map (row_bytes (bit_count (m_image_info img)) (nat pad))
                                 (drop i (m_array_pixels img))))"
  using assms(2)
proof (induction "length (m_array_pixels img) - i" arbitrary: i ofs)
  case 0
  then show ?case using assms(1)
    by (subst write_rows.simps) (simp add: wf_image_def size_t_of_nat)
next
  case (Suc n)
  let ?arr = "m_array_pixels img"
  let ?bc = "bit_count (m_image_info img)"
  from Suc.hyps(2) have i: "i < length ?arr" by simp
  have len: "length ?arr = nat (height (m_image_info img))"
    and h: "0 \<le> height (m_image_info img)" "height (m_image_info img) < 2 ^ 31"
    and w31: "width (m_image_info img) < 2 ^ 31"
    using assms(1) by (simp_all add: wf_image_def)
  have hpos: "0 < height (m_image_info img)" using i len by simp
  then have w0: "0 \<le> width (m_image_info img)" using assms(1) by (simp add: wf_image_def)
  have mem: "?arr ! i \<in> set ?arr" using i by simp
  then have rl: "length (?arr ! i) = size_t_of (width (m_image_info img))"
    and al: "?bc = 32 \<longrightarrow> (\<forall>p \<in> set (?arr ! i). px_a p \<noteq> None)"
    using assms(1) w0 w31 by (auto simp: wf_image_def size_t_of_nat)
  have wc: "write_cols img i 0 ofs = Some (ofs @ concat (map (pixel_bytes ?bc) (?arr ! i)))"
    using write_cols_Some [OF i rl al, of 0 ofs] by simp
  have ih: "write_rows img pad (i + 1)
              ((ofs @ concat (map (pixel_bytes ?bc) (?arr ! i))) @ replicate (nat pad) 0) =
           Some (((ofs @ concat (map (pixel_bytes ?bc) (?arr ! i))) @ replicate (nat pad) 0)
                 @ concat (map (row_bytes ?bc (nat pad)) (drop (i + 1) ?arr)))"
    using Suc.hyps(2) i by (intro Suc.hyps(1)) simp_all
  have "drop i ?arr = ?arr ! i # drop (i + 1) ?arr"
    using i by (simp add: Cons_nth_drop_Suc)
  moreover have "i < size_t_of (height (m_image_info img))"
    using i len h by (simp add: size_t_of_nat)
  ultimately show ?case
    using wc ih by (subst write_rows.simps) (simp add: row_bytes_def)
qed

lemma write_image_wf:
  assumes "wf_image img"
  shows "write_image img =
           Some (hdrs_bytes (m_hdrs img)
                 @ concat (map (row_bytes (bit_count (m_image_info img))
                                  (row_padding (width (m_image_info img))))
                             (m_array_pixels img)))"
proof -
  have "hdrs_size (m_hdrs img) = length (hdrs_bytes (m_hdrs img))"
    using assms by (simp add: wf_image_def)
  then show ?thesis
    using write_rows_Some [OF assms, of 0 "padding_of (width (m_image_info img))"]
    by (simp add: write_image_def nat_padding_of)
qed

lemma print_cols_Some:
  assumes "i < length (m_array_pixels img)"
    and "int (length (m_array_pixels img ! i)) = width (m_image_info img)"
    and "j \<le> length (m_array_pixels img ! i)"
  shows "print_cols img i j line =
           Some (line @ concat (map print_pixel (drop j (m_array_pixels img ! i))))"
  using assms(3)
proof (induction "length (m_array_pixels img ! i) - j" arbitrary: j line)
  case 0
  then show ?case using assms(2) by (subst print_cols.simps) simp
next
  case (Suc n)
  let ?row = "m_array_pixels img ! i"
  from Suc.hyps(2) have j: "j < length ?row" by simp
  then have pa: "pixel_at img i j = Some (?row ! j)" using assms(1) by (simp add: pixel_at_def)
  have ih: "print_cols img i (j + 1) (line @ print_pixel (?row ! j)) =
           Some ((line @ print_pixel (?row ! j)) @ concat (map print_pixel (drop (j + 1) ?row)))"
    using Suc.hyps(2) j by (intro Suc.hyps(1)) simp_all
  have "drop j ?row = ?row ! j # drop (j + 1) ?row"
    using j by (simp add: Cons_nth_drop_Suc)
  moreover have "int j < width (m_image_info img)" using j assms(2) by simp
  ultimately show ?case
    using pa ih by (subst print_cols.simps) simp
qed

lemma print_rows_Some:
  assumes "well_shaped img" and "i \<le> length (m_array_pixels img)"
  shows "print_rows img i out =
           Some (out @ map (\<lambda>row. concat (map print_pixel row)) (drop i (m_array_pixels img)))"
  using assms(2)
proof (induction "length (m_array_pixels img) - i" arbitrary: i out)
  case 0
  then show ?case using assms(1)
    by (subst print_rows.simps) (simp add: well_shaped_def)
next
  case (Suc n)
  let ?arr = "m_array_pixels img"
  from Suc.hyps(2) have i: "i < length ?arr" by simp
  have len: "length ?arr = nat (height (m_image_info img))"
    using assms(1) by (simp_all add: well_shaped_def)
  have hpos: "0 < height (m_image_info img)" using i len by simp
  then have w0: "0 \<le> width (m_image_info img)" using assms(1) by (simp add: well_shaped_def)
  have mem: "?arr ! i \<in> set ?arr" using i by simp
  then have rl: "int (length (?arr ! i)) = width (m_image_info img)"
    using assms(1) w0 by (auto simp: well_shaped_def)
  have pc: "print_cols img i 0 [] = Some (concat (map print_pixel (?arr ! i)))"
    using print_cols_Some [OF i rl, of 0 "[]"] by simp
  have ih: "print_rows img (i + 1) (out @ [concat (map print_pixel (?arr ! i))]) =
           Some ((out @ [concat (map print_pixel (?arr ! i))])
                 @ map (\<lambda>row. concat (map print_pixel row)) (drop (i + 1) ?arr))"
    using Suc.hyps(2) i by (intro Suc.hyps(1)) simp_all
  have "drop i ?arr = ?arr ! i # drop (i + 1) ?arr"
    using i by (simp add: Cons_nth_drop_Suc)
  moreover have "int i < height (m_image_info img)" using i len by simp
  ultimately show ?case
    using pc ih by (subst print_rows.simps) simp
qed

lemma print_image_well_shaped:
  assumes "well_shaped img"
  shows "print_image img = Some (map (\<lambda>row. concat (map print_pixel row)) (m_array_pixels img))"
  using print_rows_Some [OF assms, of 0 "[]"] by (simp add: print_image_def)

section \<open>The line loop\<close>







lemma line_points_stop:
  "line_break x1 y1 dx dy x0 y0 err \<Longrightarrow>
     line_points x1 y1 dx dy sx sy x0 y0 err = Some [(x0, y0)]"
  by (subst line_points.simps) simp

lemma line_points_step:
  "\<not> line_break x1 y1 dx dy x0 y0 err \<Longrightarrow> line_step dx dy sx sy x0 y0 err = (x', y', e') \<Longrightarrow>
     line_points x1 y1 dx dy sx sy x0 y0 err
     = Option.bind (line_points x1 y1 dx dy sx sy x' y' e') (\<lambda>ps. Some ((x0, y0) # ps))"
  by (subst line_points.simps) simp





text \<open>Every run that returns an image has called \<open>set_pixel\<close> along the trace.\<close>

lemma draw_loop_InrD:
  assumes "draw_loop x1 y1 dx dy sx sy clr img x0 y0 err = Some r"
  shows "\<forall>img'. r = Inr img' \<longrightarrow>
           (\<exists>ps. line_points x1 y1 dx dy sx sy x0 y0 err = Some ps
                 \<and> plot_all img ps clr = Inr img')"
proof (rule draw_loop.raw_induct
    [where P = "\<lambda>x1 y1 dx dy sx sy clr img x0 y0 err r.
       \<forall>img'. r = Inr img' \<longrightarrow>
           (\<exists>ps. line_points x1 y1 dx dy sx sy x0 y0 err = Some ps
                 \<and> plot_all img ps clr = Inr img')", OF _ assms],
    goal_cases)
  case (1 f x1 y1 dx dy sx sy clr img x0 y0 err r)
  show ?case
  proof (cases "set_pixel img x0 y0 clr")
    case (Inl e)
    with 1(2) show ?thesis by auto
  next
    case (Inr img1)
    define e2 where "e2 = wrap32 (2 * err)"
    show ?thesis
    proof (cases "line_break x1 y1 dx dy x0 y0 err")
      case True
      then have "r = Inr img1"
        using 1(2) unfolding line_break_def e2_def [symmetric]
        by (auto simp only: Inr sum.case Let_def e2_def [symmetric] if_True if_False
              option.inject split: if_splits)
      then show ?thesis using True Inr by (simp add: line_points_stop)
    next
      case False
      then have n: "\<not> (x0 = x1 \<and> y0 = y1)" "\<not> (e2 \<ge> dy \<and> x0 = x1)"
        "\<not> (e2 \<le> dx \<and> y0 = y1)"
        unfolding line_break_def e2_def by simp_all
      obtain x' y' e' where st: "line_step dx dy sx sy x0 y0 err = (x', y', e')"
        by (cases "line_step dx dy sx sy x0 y0 err")
      have "f x1 y1 dx dy sx sy clr img1 x' y' e' = Some r"
        using 1(2) st
        by (simp only: Inr sum.case Let_def e2_def [symmetric] n if_False line_step_def
              prod.inject)
      from 1(1) [OF this] show ?thesis
        using Inr by (auto simp: line_points_step [OF False st])
    qed
  qed
qed



section \<open>The example files evaluated\<close>

lemma replicate_two: "replicate 2 x = [x, x]"
  by (simp add: numeral_2_eq_2)

lemmas read_image_eval =
  read_image_def read_signature_def read_WORD_def read_DWORD_def read_LONG_def le_nat_def
  skip_bytes_def read_array_pixels_def read_headers_def padding_of_def wrap32_def c_rem_def
  read_pixel_def read_BYTE_def headers54_def replicate_two read_row.simps read_rows.simps

lemmas hdr_eval =
  hdr_off_bits_def hdr_width_def hdr_height_def hdr_bit_count_def le_nat_def
  top_down_file_def img_rows_def img_cols_def

lemma td_file_decodes: "read_image td_file = Inr td_img"
  by (simp add: td_file_def td_img_def read_image_eval)

lemma bu_file_decodes: "read_image bu_file = Inr bu_img"
  by (simp add: bu_file_def bu_img_def td_img_def read_image_eval)

lemma wide_file_decodes: "read_image wide_file = Inr wide_img"
  by (simp add: wide_file_def wide_img_def read_image_eval)

lemma alpha_file_decodes: "read_image alpha_file = Inr alpha_img"
  by (simp add: alpha_file_def alpha_img_def read_image_eval)


lemma td_flipped_decodes:
  "decode_pixels td_flipped =
     Some [[\<lparr>px_r = 3, px_g = 2, px_b = 1, px_a = None\<rparr>],
           [\<lparr>px_r = 6, px_g = 5, px_b = 4, px_a = None\<rparr>]]"
  by (simp add: td_flipped_def td_file_def decode_pixels_def read_image_eval)

lemma td_file_fields:
  "hdr_off_bits td_file = 54" "hdr_width td_file = 1" "hdr_height td_file = - 2"
  "hdr_bit_count td_file = 24" "top_down_file td_file" "img_rows td_file = 2"
  "img_cols td_file = 1"
  by (simp_all add: hdr_eval td_file_def)

lemma bu_file_fields:
  "hdr_off_bits bu_file = 54" "hdr_width bu_file = 1" "hdr_height bu_file = 2"
  "hdr_bit_count bu_file = 24" "\<not> top_down_file bu_file" "img_rows bu_file = 2"
  "img_cols bu_file = 1"
  by (simp_all add: hdr_eval bu_file_def)

lemma td_img_wf: "wf_image td_img"
  by (simp add: wf_image_def td_img_def headers54_def td_file_def)

lemma td_file_reencoded: "reencode td_file = Some td_flipped"
  by (simp add: reencode_def td_file_decodes write_image_wf [OF td_img_wf])
     (simp add: td_img_def headers54_def td_flipped_def td_file_def row_bytes_def
        pixel_bytes_def row_padding_def)

lemma px_eval: "disk_pixel td_file 0 0 = \<lparr>px_r = 3, px_g = 2, px_b = 1, px_a = None\<rparr>"
  "disk_pixel bu_file 0 0 = \<lparr>px_r = 6, px_g = 5, px_b = 4, px_a = None\<rparr>"
  "disk_pixel bu_file 1 0 = \<lparr>px_r = 3, px_g = 2, px_b = 1, px_a = None\<rparr>"
  "disk_pixel td_file 1 0 = \<lparr>px_r = 6, px_g = 5, px_b = 4, px_a = None\<rparr>"
  by (simp_all add: disk_pixel_def td_file_fields bu_file_fields file_pixel_def bytes_per_pixel_def
        row_padding_def) (simp_all add: td_file_def bu_file_def)

lemma visual_eval:
  "visual_pixel td_file 0 0 = \<lparr>px_r = 3, px_g = 2, px_b = 1, px_a = None\<rparr>"
  "visual_pixel td_file 1 0 = \<lparr>px_r = 6, px_g = 5, px_b = 4, px_a = None\<rparr>"
  "visual_pixel bu_file 0 0 = \<lparr>px_r = 3, px_g = 2, px_b = 1, px_a = None\<rparr>"
  "visual_pixel bu_file 1 0 = \<lparr>px_r = 6, px_g = 5, px_b = 4, px_a = None\<rparr>"
  by (simp_all add: visual_pixel_def td_file_fields bu_file_fields px_eval [unfolded One_nat_def])

lemma less_two: "v < (2::nat) \<longleftrightarrow> v = 0 \<or> v = 1"
  by auto

lemma bu_img_wf: "wf_image bu_img"
  by (simp add: wf_image_def bu_img_def td_img_def headers54_def bu_file_def)

lemma bu_file_reencoded: "reencode bu_file = Some bu_file"
  by (simp add: reencode_def bu_file_decodes write_image_wf [OF bu_img_wf])
     (simp add: bu_img_def td_img_def headers54_def bu_file_def row_bytes_def
        pixel_bytes_def row_padding_def)

lemma alpha_file_fields:
  "hdr_off_bits alpha_file = 54" "hdr_width alpha_file = 1" "hdr_height alpha_file = 2"
  "hdr_bit_count alpha_file = 32" "\<not> top_down_file alpha_file" "img_rows alpha_file = 2"
  "img_cols alpha_file = 1"
  by (simp_all add: hdr_eval alpha_file_def)

section \<open>Row order and padding\<close>

lemma concat_uniform:
  "(\<forall>x \<in> set xs. length x = n) \<Longrightarrow> k < length xs \<Longrightarrow>
     take n (drop (k * n) (concat xs)) = xs ! k"
proof (induction xs arbitrary: k)
  case Nil
  then show ?case by simp
next
  case (Cons x xs)
  show ?case
  proof (cases k)
    case 0
    then show ?thesis using Cons.prems by simp
  next
    case (Suc k')
    then have "drop (k * n) (concat (x # xs)) = drop (k' * n) (concat xs)"
      using Cons.prems by simp
    then show ?thesis using Cons Suc by simp
  qed
qed

lemma pixel_bytes_length:
  "(bc = 32 \<longrightarrow> px_a p \<noteq> None) \<Longrightarrow> length (pixel_bytes bc p) = bytes_per_pixel bc"
  by (auto simp: pixel_bytes_def bytes_per_pixel_def)

lemma row_bytes_length:
  assumes "bc = 32 \<longrightarrow> (\<forall>p \<in> set row. px_a p \<noteq> None)"
  shows "length (row_bytes bc pad row) = length row * bytes_per_pixel bc + pad"
proof -
  have "length (concat (map (pixel_bytes bc) row)) = length row * bytes_per_pixel bc"
    using assms
  proof (induction row)
    case Nil
    then show ?case by simp
  next
    case (Cons p row)
    then show ?case by (simp add: pixel_bytes_length)
  qed
  then show ?thesis by (simp add: row_bytes_def)
qed

lemma decoder_row_order_aux:
  assumes "read_image f = Inr img" and "i < img_rows f" and "j < img_cols f"
  shows "m_array_pixels img ! i ! j = visual_pixel f (img_rows f - 1 - i) j"
proof -
  have "img_rows f - 1 - (img_rows f - 1 - i) = i" using assms(2) by simp
  then have "visual_pixel f (img_rows f - 1 - i) j
        = disk_pixel f (if top_down_file f then img_rows f - 1 - i else i) j"
    by (simp only: visual_pixel_def)
  with read_image_disk_pixel [OF assms(1,2,3)] show ?thesis by simp
qed

lemma stored_row_disk_pixel:
  assumes "read_image f = Inr img" and "i < img_rows f" and "j < img_cols f"
  shows "m_array_pixels img ! (if top_down_file f then img_rows f - 1 - i else i) ! j
           = disk_pixel f i j"
proof -
  let ?r = "if top_down_file f then img_rows f - 1 - i else i"
  have r: "?r < img_rows f" using assms(2) by simp
  have "(if top_down_file f then img_rows f - 1 - ?r else ?r) = i" using assms(2) by simp
  with read_image_disk_pixel [OF assms(1) r assms(3)] show ?thesis by simp
qed

text \<open>
  C2, as the code has it. The decoder stores on-disk row \<open>i\<close> at the in-memory row
  \<open>top_down ? height - 1 - i : i\<close>, the reverse of the index the claim gives. A
  bottom-up file is stored in its on-disk order and a top-down file is reversed, so the
  array is bottom-up for every file: row \<open>i\<close> in memory is row \<open>height - 1 - i\<close> of the
  picture counted from its top, and row 0 is the bottom row.
\<close>

theorem decoder_row_order:
  assumes "read_image f = Inr img" and "i < img_rows f" and "j < img_cols f"
  shows "m_array_pixels img ! (if top_down_file f then img_rows f - 1 - i else i) ! j
           = disk_pixel f i j
         \<and> m_array_pixels img ! i ! j = visual_pixel f (img_rows f - 1 - i) j"
proof -
  let ?r = "if top_down_file f then img_rows f - 1 - i else i"
  have r: "?r < img_rows f" using assms(2) by simp
  have "(if top_down_file f then img_rows f - 1 - ?r else ?r) = i" using assms(2) by simp
  with read_image_disk_pixel [OF assms(1) r assms(3)]
  have a: "m_array_pixels img ! ?r ! j = disk_pixel f i j" by simp
  note decoder_row_order_aux [OF assms]
  with a show ?thesis by simp
qed

text \<open>The theorem at the top-down example file.\<close>

theorem decoder_row_order_witness:
  "read_image td_file = Inr td_img \<and> 0 < img_rows td_file \<and> 0 < img_cols td_file
   \<and> m_array_pixels td_img ! 1 ! 0 = disk_pixel td_file 0 0
   \<and> m_array_pixels td_img ! 0 ! 0 = visual_pixel td_file 1 0"
  using decoder_row_order [OF td_file_decodes, of 0 0]
  by (simp add: td_file_decodes td_file_fields)

text \<open>
  C2 as stated fails on the bottom-up example file: its on-disk row 0 is not stored at
  row \<open>height - 1 - 0\<close>, and row 0 in memory is not the top row of the picture.
\<close>

theorem decoder_row_order_counterexample:
  "read_image bu_file = Inr bu_img \<and> \<not> top_down_file bu_file \<and> img_rows bu_file = 2
   \<and> m_array_pixels bu_img ! (img_rows bu_file - 1 - 0) ! 0 \<noteq> disk_pixel bu_file 0 0
   \<and> m_array_pixels bu_img ! 0 ! 0 \<noteq> visual_pixel bu_file 0 0"
  by (simp add: bu_file_decodes bu_file_fields px_eval [unfolded One_nat_def] visual_pixel_def)
     (simp add: bu_img_def td_img_def)

text \<open>
  C3. A top-down file and a bottom-up file of the same dimensions that hold the same
  picture (the same pixel at every row counted from the top and every column) decode to
  the same pixel array, so in particular to the same pixel at (0, 0).
\<close>

theorem orientation_normalised:
  assumes "read_image f_td = Inr img_td" and "read_image f_bu = Inr img_bu"
    and "top_down_file f_td" and "\<not> top_down_file f_bu"
    and "img_rows f_td = img_rows f_bu" and "img_cols f_td = img_cols f_bu"
    and "\<forall>v < img_rows f_td. \<forall>j < img_cols f_td. visual_pixel f_td v j = visual_pixel f_bu v j"
  shows "m_array_pixels img_td = m_array_pixels img_bu
         \<and> m_array_pixels img_td ! 0 ! 0 = m_array_pixels img_bu ! 0 ! 0"
proof -
  let ?h = "img_rows f_td"
  have "m_array_pixels img_td = m_array_pixels img_bu"
  proof (rule nth_equalityI)
    show "length (m_array_pixels img_td) = length (m_array_pixels img_bu)"
      using read_image_rows(1) [OF assms(1)] read_image_rows(1) [OF assms(2)] assms(5) by simp
  next
    fix r assume "r < length (m_array_pixels img_td)"
    then have r: "r < ?h" using read_image_rows(1) [OF assms(1)] by simp
    then have r': "r < img_rows f_bu" using assms(5) by simp
    show "m_array_pixels img_td ! r = m_array_pixels img_bu ! r"
    proof (rule nth_equalityI)
      show "length (m_array_pixels img_td ! r) = length (m_array_pixels img_bu ! r)"
        using read_image_row_length [OF assms(1) r] read_image_row_length [OF assms(2) r']
          assms(6) by simp
    next
      fix j assume "j < length (m_array_pixels img_td ! r)"
      then have j: "j < img_cols f_td" using read_image_row_length [OF assms(1) r] by simp
      then have j': "j < img_cols f_bu" using assms(6) by simp
      from decoder_row_order_aux [OF assms(1) r j] decoder_row_order_aux [OF assms(2) r' j']
        assms(5,7) r j
      show "m_array_pixels img_td ! r ! j = m_array_pixels img_bu ! r ! j" by simp
    qed
  qed
  then show ?thesis by simp
qed

text \<open>The theorem at the two example files of the same picture.\<close>

theorem orientation_normalised_witness:
  "read_image td_file = Inr td_img \<and> read_image bu_file = Inr bu_img
   \<and> top_down_file td_file \<and> \<not> top_down_file bu_file
   \<and> img_rows td_file = img_rows bu_file \<and> img_cols td_file = img_cols bu_file
   \<and> img_rows td_file = 2 \<and> img_cols td_file = 1
   \<and> visual_pixel td_file 0 0 = visual_pixel bu_file 0 0
   \<and> visual_pixel td_file 1 0 = visual_pixel bu_file 1 0
   \<and> m_array_pixels td_img = m_array_pixels bu_img
   \<and> m_array_pixels td_img ! 0 ! 0 = m_array_pixels bu_img ! 0 ! 0"
proof -
  have same: "\<forall>v < img_rows td_file. \<forall>j < img_cols td_file.
         visual_pixel td_file v j = visual_pixel bu_file v j"
    by (auto simp: td_file_fields less_two visual_eval visual_eval [unfolded One_nat_def])
  from orientation_normalised [OF td_file_decodes bu_file_decodes td_file_fields(5)
      bu_file_fields(5) _ _ same]
  show ?thesis
    by (simp add: td_file_decodes bu_file_decodes td_file_fields bu_file_fields visual_eval
          visual_eval [unfolded One_nat_def])
qed

text \<open>
  C4, as the code has it, for a bottom-up input. The encoder writes the header bytes of
  the input unchanged (the height field with its sign included) and then the in-memory
  rows in index order: the \<open>k\<close>-th row after the headers holds the bytes of row \<open>k\<close>
  of the array, which is the \<open>k\<close>-th row of the input on disk and row
  \<open>height - 1 - k\<close> of the picture counted from its top. The pixel data of the output
  is bottom-up like that of the input, not top-down.
\<close>

theorem encoder_row_order:
  assumes "read_image f = Inr img" and "\<not> top_down_file f"
  shows "\<exists>out. write_image img = Some out
           \<and> out = take (hdr_off_bits f) f
                   @ concat (map (row_bytes (hdr_bit_count f) (row_padding (hdr_width f)))
                               (m_array_pixels img))
           \<and> take (hdr_off_bits f) out = take (hdr_off_bits f) f
           \<and> (\<forall>k < img_rows f.
                 take (img_cols f * bytes_per_pixel (hdr_bit_count f) + row_padding (hdr_width f))
                   (drop (hdr_off_bits f
                          + k * (img_cols f * bytes_per_pixel (hdr_bit_count f)
                                 + row_padding (hdr_width f))) out)
                 = row_bytes (hdr_bit_count f) (row_padding (hdr_width f))
                     (m_array_pixels img ! k)
                 \<and> (\<forall>j < img_cols f.
                       m_array_pixels img ! k ! j = disk_pixel f k j
                       \<and> m_array_pixels img ! k ! j = visual_pixel f (img_rows f - 1 - k) j))"
proof -
  let ?bc = "hdr_bit_count f"
  let ?pad = "row_padding (hdr_width f)"
  let ?n = "img_cols f * bytes_per_pixel ?bc + ?pad"
  let ?rows = "map (row_bytes ?bc ?pad) (m_array_pixels img)"
  let ?out = "take (hdr_off_bits f) f @ concat ?rows"
  note d = read_image_InrD [OF assms(1)]
  have wf: "wf_image img" by (rule read_image_wf [OF assms(1)])
  have w: "write_image img = Some ?out"
    using write_image_wf [OF wf] by (simp add: d(5) d(6))
  have len: "length (take (hdr_off_bits f) f) = hdr_off_bits f" using d(2) by simp
  have uni: "\<forall>x \<in> set ?rows. length x = ?n"
  proof
    fix x assume "x \<in> set ?rows"
    then obtain row where row: "row \<in> set (m_array_pixels img)" "x = row_bytes ?bc ?pad row"
      by auto
    from wf row(1) have "length row = img_cols f"
      and "?bc = 32 \<longrightarrow> (\<forall>p \<in> set row. px_a p \<noteq> None)"
      by (auto simp: wf_image_def d(5) img_cols_def)
    then show "length x = ?n" using row(2) by (simp add: row_bytes_length)
  qed
  have rowk: "take ?n (drop (hdr_off_bits f + k * ?n) ?out)
              = row_bytes ?bc ?pad (m_array_pixels img ! k)" if k: "k < img_rows f" for k
  proof -
    have "drop (hdr_off_bits f + k * ?n) ?out = drop (k * ?n) (concat ?rows)"
      using len by simp
    moreover have "k < length ?rows" using k read_image_rows(1) [OF assms(1)] by simp
    ultimately show ?thesis using concat_uniform [OF uni, of k] by simp
  qed
  have bu: "m_array_pixels img ! k ! j = disk_pixel f k j"
    if "k < img_rows f" "j < img_cols f" for k j
    using read_image_disk_pixel [OF assms(1) that] assms(2) by simp
  show ?thesis
    using w len rowk bu decoder_row_order_aux [OF assms(1)] by (intro exI [of _ ?out]) simp
qed

text \<open>The theorem at the bottom-up example file, which is written back as it is.\<close>

theorem encoder_row_order_witness:
  "read_image bu_file = Inr bu_img \<and> \<not> top_down_file bu_file
   \<and> write_image bu_img = Some bu_file
   \<and> take 54 bu_file = take (hdr_off_bits bu_file) bu_file
   \<and> take 4 (drop 54 bu_file) = row_bytes 24 1 (m_array_pixels bu_img ! 0)
   \<and> take 4 (drop 58 bu_file) = row_bytes 24 1 (m_array_pixels bu_img ! 1)
   \<and> m_array_pixels bu_img ! 0 ! 0 = disk_pixel bu_file 0 0
   \<and> m_array_pixels bu_img ! 0 ! 0 = visual_pixel bu_file 1 0
   \<and> m_array_pixels bu_img ! 1 ! 0 = disk_pixel bu_file 1 0
   \<and> m_array_pixels bu_img ! 1 ! 0 = visual_pixel bu_file 0 0"
proof -
  from encoder_row_order [OF bu_file_decodes bu_file_fields(5)] obtain out where
    w: "write_image bu_img = Some out"
    and o: "out = take (hdr_off_bits bu_file) bu_file
                   @ concat (map (row_bytes (hdr_bit_count bu_file)
                                    (row_padding (hdr_width bu_file)))
                               (m_array_pixels bu_img))"
    and r: "\<forall>k < img_rows bu_file.
                 take (img_cols bu_file * bytes_per_pixel (hdr_bit_count bu_file)
                       + row_padding (hdr_width bu_file))
                   (drop (hdr_off_bits bu_file
                          + k * (img_cols bu_file * bytes_per_pixel (hdr_bit_count bu_file)
                                 + row_padding (hdr_width bu_file))) out)
                 = row_bytes (hdr_bit_count bu_file) (row_padding (hdr_width bu_file))
                     (m_array_pixels bu_img ! k)
                 \<and> (\<forall>j < img_cols bu_file.
                       m_array_pixels bu_img ! k ! j = disk_pixel bu_file k j
                       \<and> m_array_pixels bu_img ! k ! j
                          = visual_pixel bu_file (img_rows bu_file - 1 - k) j)"
    by blast
  have pad: "row_padding 1 = 1" by (simp add: row_padding_def)
  have bpp: "bytes_per_pixel 24 = 3" by (simp add: bytes_per_pixel_def)
  have out: "out = bu_file"
    unfolding o
    by (simp add: bu_file_fields pad bu_img_def td_img_def row_bytes_def pixel_bytes_def)
       (simp add: bu_file_def)
  have i: "img_rows bu_file - 1 - 0 = 1" "img_rows bu_file - 1 - 1 = 0"
    "0 < img_rows bu_file" "1 < img_rows bu_file" "0 < img_cols bu_file"
    by (simp_all add: bu_file_fields)
  note r0 = r [rule_format, OF i(3)] and r1 = r [rule_format, OF i(4)]
  note a = r0 [THEN conjunct2, rule_format, OF i(5), unfolded i(1)]
    and b = r1 [THEN conjunct2, rule_format, OF i(5), unfolded i(2)]
  have h: "take 54 bu_file = take (hdr_off_bits bu_file) bu_file"
    by (simp add: bu_file_fields)
  from r0 [THEN conjunct1] r1 [THEN conjunct1]
  have rows: "take 4 (drop 54 bu_file) = row_bytes 24 1 (m_array_pixels bu_img ! 0)"
    "take 4 (drop 58 bu_file) = row_bytes 24 1 (m_array_pixels bu_img ! 1)"
    unfolding out by (simp_all add: bu_file_fields pad bpp)
  from w have w': "write_image bu_img = Some bu_file" unfolding out .
  show ?thesis
    using w' bu_file_decodes bu_file_fields(5) h rows a b by blast
qed

text \<open>
  C4 as stated fails on the bottom-up example file: the output is the input itself, and
  its first row on disk is not the top row of the picture.
\<close>

theorem encoder_row_order_counterexample:
  "reencode bu_file = Some bu_file \<and> \<not> top_down_file bu_file
   \<and> disk_pixel bu_file 0 0 \<noteq> visual_pixel bu_file 0 0"
  by (simp add: bu_file_reencoded bu_file_fields px_eval visual_eval)

text \<open>
  C5. The padding is \<open>(4 - (width * 3) % 4) % 4\<close> for every width, computed from the
  width alone, so from the 3-byte stride also at 32 bits; it is 1 for width 5 and 0 for
  width 4. In the decoder, on-disk row \<open>i\<close> is read at the offset of the pixel data plus
  \<open>i\<close> times the bytes of the pixels of a row plus the padding, so exactly the padding is
  skipped after each row; the encoder writes after the pixels of each row that many zero
  bytes.
\<close>

theorem row_padding_three_byte_stride:
  "(\<forall>w. padding_of w = (4 - (w * 3) mod 4) mod 4) \<and> padding_of 5 = 1 \<and> padding_of 4 = 0
   \<and> (read_image f = Inr img \<longrightarrow>
        (\<forall>i < img_rows f. \<forall>j < img_cols f.
           m_array_pixels img ! (if top_down_file f then img_rows f - 1 - i else i) ! j
           = file_pixel f (bit_count (m_image_info img))
               (hdr_off_bits f
                + i * (img_cols f * bytes_per_pixel (bit_count (m_image_info img))
                       + nat (padding_of (width (m_image_info img))))
                + j * bytes_per_pixel (bit_count (m_image_info img))))
        \<and> write_image img =
            Some (hdrs_bytes (m_hdrs img)
                  @ concat (map (\<lambda>row. concat (map (pixel_bytes (bit_count (m_image_info img))) row)
                                        @ replicate (nat (padding_of (width (m_image_info img)))) 0)
                              (m_array_pixels img))))"
proof (intro conjI allI impI)
  fix w show "padding_of w = (4 - (w * 3) mod 4) mod 4" by (rule padding_of_eq)
next
  show "padding_of 5 = 1" by (simp add: padding_of_eq)
next
  show "padding_of 4 = 0" by (simp add: padding_of_eq)
next
  fix i j assume a: "read_image f = Inr img" "i < img_rows f" "j < img_cols f"
  note d = read_image_InrD [OF a(1)]
  have "m_array_pixels img ! (if top_down_file f then img_rows f - 1 - i else i) ! j
        = disk_pixel f i j"
    using stored_row_disk_pixel [OF a] by simp
  then show "m_array_pixels img ! (if top_down_file f then img_rows f - 1 - i else i) ! j
           = file_pixel f (bit_count (m_image_info img))
               (hdr_off_bits f
                + i * (img_cols f * bytes_per_pixel (bit_count (m_image_info img))
                       + nat (padding_of (width (m_image_info img))))
                + j * bytes_per_pixel (bit_count (m_image_info img)))"
    by (simp add: disk_pixel_def d(5) nat_padding_of)
next
  assume a: "read_image f = Inr img"
  show "write_image img =
            Some (hdrs_bytes (m_hdrs img)
                  @ concat (map (\<lambda>row. concat (map (pixel_bytes (bit_count (m_image_info img))) row)
                                        @ replicate (nat (padding_of (width (m_image_info img)))) 0)
                              (m_array_pixels img)))"
    using write_image_wf [OF read_image_wf [OF a]]
    by (simp add: nat_padding_of row_bytes_def [abs_def])
qed

text \<open>
  The theorem at the 32-bit example file of width 1: the padding is 1 byte, the second
  row is read 5 bytes after the first, and the encoder writes the file back with one
  zero byte after each row.
\<close>

theorem row_padding_three_byte_stride_witness:
  "read_image alpha_file = Inr alpha_img \<and> bit_count (m_image_info alpha_img) = 32
   \<and> padding_of (width (m_image_info alpha_img)) = 1
   \<and> m_array_pixels alpha_img ! 1 ! 0 = file_pixel alpha_file 32 (54 + 1 * (1 * 4 + 1) + 0 * 4)
   \<and> write_image alpha_img = Some alpha_file"
proof -
  note t = row_padding_three_byte_stride [of alpha_file alpha_img]
  have p: "padding_of (width (m_image_info alpha_img)) = 1"
    using t by (simp add: alpha_img_def)
  from t alpha_file_decodes
  have r: "\<forall>i < img_rows alpha_file. \<forall>j < img_cols alpha_file.
           m_array_pixels alpha_img ! (if top_down_file alpha_file then img_rows alpha_file - 1 - i else i) ! j
           = file_pixel alpha_file (bit_count (m_image_info alpha_img))
               (hdr_off_bits alpha_file
                + i * (img_cols alpha_file * bytes_per_pixel (bit_count (m_image_info alpha_img))
                       + nat (padding_of (width (m_image_info alpha_img))))
                + j * bytes_per_pixel (bit_count (m_image_info alpha_img)))"
    and w: "write_image alpha_img =
            Some (hdrs_bytes (m_hdrs alpha_img)
                  @ concat (map (\<lambda>row. concat (map (pixel_bytes (bit_count (m_image_info alpha_img))) row)
                                        @ replicate (nat (padding_of (width (m_image_info alpha_img)))) 0)
                              (m_array_pixels alpha_img)))"
    by blast+
  have "m_array_pixels alpha_img ! 1 ! 0 = file_pixel alpha_file 32 (54 + 1 * (1 * 4 + 1) + 0 * 4)"
    using r [rule_format, of 1 0] p
    by (simp add: alpha_file_fields bytes_per_pixel_def) (simp add: alpha_img_def)
  moreover have "write_image alpha_img = Some alpha_file"
    unfolding w p by (simp add: alpha_img_def headers54_def alpha_file_def pixel_bytes_def)
  ultimately show ?thesis using p by (simp add: alpha_file_decodes) (simp add: alpha_img_def)
qed

section \<open>Reading back what the writer wrote\<close>

lemma read_pixel_total:
  "p + bytes_per_pixel bc \<le> length f \<Longrightarrow> \<exists>px p'. read_pixel f bc p = Some (px, p')"
  by (auto simp: read_pixel_def read_BYTE_def bytes_per_pixel_def split: if_splits)

lemma read_row_total:
  "p + (w - j) * bytes_per_pixel bc \<le> length f \<Longrightarrow>
     \<exists>row' p'. read_row f bc w j p row = Some (row', p')"
proof (induction "w - j" arbitrary: j p row)
  case 0
  then show ?case by (subst read_row.simps) simp
next
  case (Suc n)
  then have j: "j < w" and n: "w - (j + 1) = n" by simp_all
  have "p + bytes_per_pixel bc \<le> length f" using Suc.prems Suc.hyps(2) [symmetric] by simp
  from read_pixel_total [OF this] obtain px p1 where rp: "read_pixel f bc p = Some (px, p1)"
    by blast
  from read_pixel_SomeD [OF rp] have p1: "p1 = p + bytes_per_pixel bc" by simp
  have "p1 + (w - (j + 1)) * bytes_per_pixel bc \<le> length f"
    using Suc.prems Suc.hyps(2) [symmetric] unfolding p1 n by simp
  from Suc.hyps(1) [OF n [symmetric] this, of "row @ [px]"]
  show ?case using j rp by (subst read_row.simps) simp
qed

lemma read_rows_total:
  "p + (h - i) * (w * bytes_per_pixel bc + nat pad) \<le> length f \<Longrightarrow>
     \<exists>arr'. read_rows f bc w h td pad i p arr = Some arr'"
proof (induction "h - i" arbitrary: i p arr)
  case 0
  then show ?case by (subst read_rows.simps) simp
next
  case (Suc n)
  let ?s = "w * bytes_per_pixel bc + nat pad"
  from Suc have i: "i < h" and n: "h - (i + 1) = n" by simp_all
  have le: "p + ?s + n * ?s \<le> length f" using Suc.prems Suc.hyps(2) [symmetric] by simp
  then have "p + (w - 0) * bytes_per_pixel bc \<le> length f" by simp
  from read_row_total [OF this, of "[]"] obtain row p1 where
    rr: "read_row f bc w 0 p [] = Some (row, p1)" by blast
  from read_row_file_row [OF rr] have p1: "p1 = p + w * bytes_per_pixel bc" by simp
  have pos: "(if pad > 0 then p1 + nat pad else p1) = p + ?s" by (simp add: p1)
  have "p + ?s + (h - (i + 1)) * ?s \<le> length f" using le n by simp
  from Suc.hyps(1) [OF n [symmetric] this]
  show ?case using i rr unfolding pos [symmetric]
    by (subst read_rows.simps) (simp add: Let_def)
qed

lemma read_image_total:
  assumes "30 \<le> length f" and "f ! 0 = 0x42" and "f ! 1 = 0x4D"
    and "hdr_height f \<noteq> - (2 ^ 31)"
    and "0 < \<bar>hdr_height f\<bar> \<longrightarrow> 0 \<le> hdr_width f"
    and "hdr_off_bits f
         + img_rows f * (img_cols f * bytes_per_pixel (hdr_bit_count f) + row_padding (hdr_width f))
         \<le> length f"
  shows "\<exists>img. read_image f = Inr img"
proof -
  have sg: "read_signature f 0 = Some (0x4D42, 2)"
    using assms(1-3) take_2_drop [of 0 f] sig_word_eq [of "f ! 0" "f ! 1"]
    by (simp add: read_signature_def read_WORD_def le_nat_def)
  have ro: "read_DWORD f 10 = Some (of_nat (le_nat (take 4 (drop 10 f))), 14)"
    using assms(1) by (simp add: read_DWORD_def)
  have rw: "read_LONG f 18 = Some (hdr_width f, 22)"
    using assms(1) by (simp add: read_LONG_def read_DWORD_def hdr_width_def)
  have rh: "read_LONG f 22 = Some (hdr_height f, 26)"
    using assms(1) by (simp add: read_LONG_def read_DWORD_def hdr_height_def)
  have rb: "read_WORD f 28 = Some (hdr_bit_count f, 30)"
    using assms(1) by (simp add: read_WORD_def hdr_bit_count_def)
  have "hdr_off_bits f + (img_rows f - 0)
          * (img_cols f * bytes_per_pixel (hdr_bit_count f) + nat (padding_of (hdr_width f)))
        \<le> length f"
    using assms(6) by (simp add: nat_padding_of)
  from read_rows_total [OF this] obtain arr where
    "read_rows f (hdr_bit_count f) (img_cols f) (img_rows f) (hdr_height f < 0)
       (padding_of (hdr_width f)) 0 (hdr_off_bits f) (replicate (img_rows f) []) = Some arr"
    by blast
  then have ra: "read_array_pixels f (hdr_off_bits f) (hdr_width f) \<bar>hdr_height f\<bar>
                  (hdr_bit_count f) (hdr_height f < 0) = Some arr"
    by (simp add: read_array_pixels_def img_cols_def img_rows_def)
  have hd: "read_headers f (hdr_off_bits f)
            = Some \<lparr>hdrs_bytes = take (hdr_off_bits f) f, hdrs_size = hdr_off_bits f\<rparr>"
    using assms(6) by (simp add: read_headers_def)
  have habs: "(if hdr_height f < 0 then \<bar>hdr_height f\<bar> else hdr_height f) = \<bar>hdr_height f\<bar>"
    by simp
  have nw: "\<not> (0 < \<bar>hdr_height f\<bar> \<and> hdr_width f < 0)" using assms(5) by auto
  show ?thesis
    unfolding read_image_def sg
    using assms(4) nw
    by (simp add: skip_bytes_def ro rw rh rb Let_def habs ra [unfolded hdr_off_bits_def]
          hd [unfolded hdr_off_bits_def] del: abs_if)
qed

lemma read_image_signature:
  assumes "read_image f = Inr img"
  shows "f ! 0 = 0x42 \<and> f ! 1 = 0x4D"
proof (rule ccontr)
  assume n: "\<not> (f ! 0 = 0x42 \<and> f ! 1 = 0x4D)"
  have "2 \<le> length f" using read_image_InrD(1) [OF assms] by simp
  from wrong_signature_rejected [OF this n] assms show False by simp
qed

lemma length_concat_uniform:
  "(\<forall>x \<in> set xs. length x = n) \<Longrightarrow> length (concat xs) = length xs * n"
  by (induction xs) simp_all

lemma nth_concat_uniform:
  assumes "\<forall>x \<in> set xs. length x = n" and "k < length xs" and "t < n"
  shows "concat xs ! (k * n + t) = xs ! k ! t"
proof -
  have "xs ! k \<in> set xs" using assms(2) by simp
  then have lk: "length (xs ! k) = n" using assms(1) by simp
  have "Suc k * n \<le> length xs * n" using assms(2) by (intro mult_le_mono1) simp
  then have lt: "k * n + t < length (concat xs)"
    using assms(3) by (simp add: length_concat_uniform [OF assms(1)])
  have "xs ! k ! t = take n (drop (k * n) (concat xs)) ! t"
    by (simp add: concat_uniform [OF assms(1,2)])
  also have "\<dots> = concat xs ! (k * n + t)" using assms(3) lt by simp
  finally show ?thesis by simp
qed

lemma take_drop_prefix:
  "k + n \<le> m \<Longrightarrow> m \<le> length f \<Longrightarrow> take n (drop k (take m f @ xs)) = take n (drop k f)"
  by (simp add: min_def take_drop)

lemma hdr_fields_prefix:
  assumes "30 \<le> m" and "m \<le> length f"
  shows "hdr_off_bits (take m f @ xs) = hdr_off_bits f"
    and "hdr_width (take m f @ xs) = hdr_width f"
    and "hdr_height (take m f @ xs) = hdr_height f"
    and "hdr_bit_count (take m f @ xs) = hdr_bit_count f"
proof -
  have a: "take 4 (drop 10 (take m f @ xs)) = take 4 (drop 10 f)"
    "take 4 (drop 18 (take m f @ xs)) = take 4 (drop 18 f)"
    "take 4 (drop 22 (take m f @ xs)) = take 4 (drop 22 f)"
    "take 2 (drop 28 (take m f @ xs)) = take 2 (drop 28 f)"
    using assms by (intro take_drop_prefix; simp)+
  show "hdr_off_bits (take m f @ xs) = hdr_off_bits f" unfolding hdr_off_bits_def a ..
  show "hdr_width (take m f @ xs) = hdr_width f" unfolding hdr_width_def a ..
  show "hdr_height (take m f @ xs) = hdr_height f" unfolding hdr_height_def a ..
  show "hdr_bit_count (take m f @ xs) = hdr_bit_count f" unfolding hdr_bit_count_def a ..
qed

lemma file_pixel_from_bytes:
  assumes "\<forall>t < bytes_per_pixel bc. g ! (q + t) = pixel_bytes bc (file_pixel f bc qf) ! t"
  shows "file_pixel g bc q = file_pixel f bc qf"
proof (cases "bc = 32")
  case True
  then have "\<forall>t < 4. g ! (q + t) = [f ! qf, f ! (qf + 1), f ! (qf + 2), f ! (qf + 3)] ! t"
    using assms by (simp add: bytes_per_pixel_def pixel_bytes_def file_pixel_def)
  from this [rule_format, of 0] this [rule_format, of 1] this [rule_format, of 2]
    this [rule_format, of 3]
  show ?thesis using True by (simp add: file_pixel_def)
next
  case False
  then have "\<forall>t < 3. g ! (q + t) = [f ! qf, f ! (qf + 1), f ! (qf + 2)] ! t"
    using assms by (simp add: bytes_per_pixel_def pixel_bytes_def file_pixel_def)
  from this [rule_format, of 0] this [rule_format, of 1] this [rule_format, of 2]
  show ?thesis using False by (simp add: file_pixel_def)
qed

lemma roundtrip_pixels_eq:
  assumes "read_image f = Inr img" and "30 \<le> hdr_off_bits f"
  shows "roundtrip_pixels f =
           Some (if top_down_file f then rev (m_array_pixels img) else m_array_pixels img)"
proof -
  let ?bc = "hdr_bit_count f"
  let ?b = "bytes_per_pixel ?bc"
  let ?pad = "row_padding (hdr_width f)"
  let ?w = "img_cols f"
  let ?h = "img_rows f"
  let ?off = "hdr_off_bits f"
  let ?n = "?w * ?b + ?pad"
  let ?arr = "m_array_pixels img"
  let ?rows = "map (row_bytes ?bc ?pad) ?arr"
  let ?out = "take ?off f @ concat ?rows"
  note d = read_image_InrD [OF assms(1)]
  have wf: "wf_image img" by (rule read_image_wf [OF assms(1)])
  have larr: "length ?arr = ?h" by (rule read_image_rows(1) [OF assms(1)])
  have re: "reencode f = Some ?out"
    using write_image_wf [OF wf] assms(1) by (simp add: reencode_def d(5) d(6))
  have len: "length (take ?off f) = ?off" using d(2) by simp
  have rowp: "length row = ?w \<and> (\<forall>p \<in> set row. length (pixel_bytes ?bc p) = ?b)"
    if "row \<in> set ?arr" for row
    using wf that by (auto simp: wf_image_def d(5) img_cols_def intro!: pixel_bytes_length)
  have uni: "\<forall>x \<in> set ?rows. length x = ?n"
  proof
    fix x assume "x \<in> set ?rows"
    then obtain row where row: "row \<in> set ?arr" "x = row_bytes ?bc ?pad row" by auto
    from wf row(1) have "length row = ?w"
      and "?bc = 32 \<longrightarrow> (\<forall>p \<in> set row. px_a p \<noteq> None)"
      by (auto simp: wf_image_def d(5) img_cols_def)
    then show "length x = ?n" using row(2) by (simp add: row_bytes_length)
  qed
  have lout: "length ?out = ?off + ?h * ?n"
    using len length_concat_uniform [OF uni] larr by simp
  have h1: "hdr_off_bits ?out = ?off" "hdr_width ?out = hdr_width f"
    "hdr_height ?out = hdr_height f" "hdr_bit_count ?out = ?bc"
    using assms(2) d(2) by (intro hdr_fields_prefix; simp)+
  have h2: "img_rows ?out = ?h" "img_cols ?out = ?w" "top_down_file ?out = top_down_file f"
    by (simp_all only: img_rows_def img_cols_def top_down_file_def h1)
  have sg: "?out ! 0 = 0x42" "?out ! 1 = 0x4D"
    using read_image_signature [OF assms(1)] assms(2) len by (simp_all add: nth_append)
  have "\<exists>img2. read_image ?out = Inr img2"
  proof (rule read_image_total)
    show "30 \<le> length ?out" using lout assms(2) by simp
    show "?out ! 0 = 0x42" "?out ! 1 = 0x4D" by (rule sg)+
    show "hdr_height ?out \<noteq> - (2 ^ 31)" using d(3) unfolding h1 .
    show "0 < \<bar>hdr_height ?out\<bar> \<longrightarrow> 0 \<le> hdr_width ?out" using d(4) unfolding h1 by blast
    show "hdr_off_bits ?out
         + img_rows ?out * (img_cols ?out * bytes_per_pixel (hdr_bit_count ?out)
                            + row_padding (hdr_width ?out))
         \<le> length ?out"
      by (simp only: h1 h2 lout)
  qed
  then obtain img2 where i2: "read_image ?out = Inr img2" by blast
  have px: "file_pixel ?out ?bc (?off + k * ?n + j * ?b) = ?arr ! k ! j"
    if k: "k < ?h" and j: "j < ?w" for k j
  proof -
    let ?row = "?arr ! k"
    have mem: "?row \<in> set ?arr" using k larr by simp
    have lrow: "length ?row = ?w" using rowp [OF mem] by simp
    obtain qf where qf: "?row ! j = file_pixel f ?bc qf"
      using read_image_rows(2) [OF assms(1)] j
      by (cases "top_down_file f") (simp_all add: file_row_nth k)
    have pbs: "\<forall>x \<in> set (map (pixel_bytes ?bc) ?row). length x = ?b"
      using rowp [OF mem] by auto
    have bytes: "?out ! (?off + k * ?n + j * ?b + t) = pixel_bytes ?bc (?row ! j) ! t"
      if t: "t < ?b" for t
    proof -
      have jt: "j * ?b + t < ?w * ?b"
      proof -
        have "Suc j * ?b \<le> ?w * ?b" using j by (intro mult_le_mono1) simp
        then show ?thesis using t by simp
      qed
      then have jn: "j * ?b + t < ?n" by simp
      have "?out ! (?off + k * ?n + j * ?b + t) = concat ?rows ! (k * ?n + (j * ?b + t))"
        using len by (simp add: nth_append add.assoc)
      also have "\<dots> = ?rows ! k ! (j * ?b + t)"
        using k larr jn by (intro nth_concat_uniform [OF uni]) simp_all
      also have "\<dots> = concat (map (pixel_bytes ?bc) ?row) ! (j * ?b + t)"
        using k larr jt lrow length_concat_uniform [OF pbs]
        by (simp add: row_bytes_def nth_append)
      also have "\<dots> = map (pixel_bytes ?bc) ?row ! j ! t"
        using j lrow t by (intro nth_concat_uniform [OF pbs]) simp_all
      finally show ?thesis using j lrow by simp
    qed
    have "file_pixel ?out ?bc (?off + k * ?n + j * ?b) = file_pixel f ?bc qf"
      using bytes by (intro file_pixel_from_bytes) (simp add: qf)
    then show ?thesis by (simp add: qf)
  qed
  have row: "file_row ?out ?bc ?w (?off + k * ?n) = ?arr ! k" if k: "k < ?h" for k
  proof (rule nth_equalityI)
    have "?arr ! k \<in> set ?arr" using k larr by simp
    then show "length (file_row ?out ?bc ?w (?off + k * ?n)) = length (?arr ! k)"
      using rowp by simp
  next
    fix j assume "j < length (file_row ?out ?bc ?w (?off + k * ?n))"
    then have j: "j < ?w" by simp
    then show "file_row ?out ?bc ?w (?off + k * ?n) ! j = ?arr ! k ! j"
      using px [OF k j] by (simp add: file_row_nth)
  qed
  have l2: "length (m_array_pixels img2) = ?h"
    using read_image_rows(1) [OF i2] by (simp only: h2)
  have r2: "m_array_pixels img2 ! r = ?arr ! (if top_down_file f then ?h - 1 - r else r)"
    if r: "r < ?h" for r
  proof -
    have "(if top_down_file f then ?h - 1 - r else r) < ?h" using r by simp
    from row [OF this] read_image_rows(2) [OF i2, of r] r show ?thesis
      by (simp only: h1 h2)
  qed
  have "m_array_pixels img2 = (if top_down_file f then rev ?arr else ?arr)"
  proof (rule nth_equalityI)
    show "length (m_array_pixels img2) = length (if top_down_file f then rev ?arr else ?arr)"
      using l2 larr by simp
  next
    fix r assume "r < length (m_array_pixels img2)"
    then have r: "r < ?h" using l2 by simp
    then show "m_array_pixels img2 ! r = (if top_down_file f then rev ?arr else ?arr) ! r"
      using r2 [OF r] larr by (simp add: rev_nth)
  qed
  then show ?thesis by (simp add: roundtrip_pixels_def re decode_pixels_def i2)
qed

text \<open>
  C1 fails for top-down files. On the top-down example file, a valid 24-bit BMP, the
  encoder writes the bottom-up array under the unchanged header with its negative
  height, so decoding the output reverses the rows once more: the pixel arrays of
  \<open>decode(f)\<close> and \<open>decode(encode(decode(f)))\<close> differ. (In general, by
  \<open>roundtrip_pixels_eq\<close>, the round trip gives the same array for a bottom-up file and
  the reversed array for a top-down file.)
\<close>

theorem roundtrip_top_down_flips:
  "decode_pixels td_file =
     Some [[\<lparr>px_r = 6, px_g = 5, px_b = 4, px_a = None\<rparr>],
           [\<lparr>px_r = 3, px_g = 2, px_b = 1, px_a = None\<rparr>]]
   \<and> top_down_file td_file \<and> hdr_bit_count td_file = 24
   \<and> reencode td_file = Some td_flipped
   \<and> roundtrip_pixels td_file =
     Some [[\<lparr>px_r = 3, px_g = 2, px_b = 1, px_a = None\<rparr>],
           [\<lparr>px_r = 6, px_g = 5, px_b = 4, px_a = None\<rparr>]]"
  by (simp add: roundtrip_pixels_def td_file_reencoded td_flipped_decodes td_file_fields)
     (simp add: decode_pixels_def td_file_decodes td_img_def)

section \<open>The editor\<close>

lemma set_pixel_outside:
  "\<not> (0 \<le> x \<and> x < width (m_image_info img) \<and> 0 \<le> y \<and> y < height (m_image_info img)) \<Longrightarrow>
     set_pixel img x y color = Inr img"
  by (auto simp: set_pixel_def)


lemma set_pixel_overrun:
  assumes "well_shaped img"
    and "0 \<le> x" "x < width (m_image_info img)" "0 \<le> y" "y < height (m_image_info img)"
    and "height (m_image_info img) \<le> x \<or> width (m_image_info img) \<le> y"
  shows "set_pixel img x y color = Inl OutOfBounds"
proof (cases "height (m_image_info img) \<le> x")
  case True
  then have "\<not> nat x < length (m_array_pixels img)" using assms(1,2) by (simp add: well_shaped_def)
  then show ?thesis using assms(2-5) by (simp add: set_pixel_def assign_pixel_at_def)
next
  case False
  then have x: "nat x < length (m_array_pixels img)" using assms(1,2) by (simp add: well_shaped_def)
  then have "m_array_pixels img ! nat x \<in> set (m_array_pixels img)" by simp
  then have "length (m_array_pixels img ! nat x) = nat (width (m_image_info img))"
    using assms(1) by (simp add: well_shaped_def)
  moreover have "width (m_image_info img) \<le> y" using False assms(6) by simp
  ultimately have "\<not> nat y < length (m_array_pixels img ! nat x)" using assms(4) by simp
  then show ?thesis using assms(2-5) by (simp add: set_pixel_def assign_pixel_at_def)
qed

lemma set_pixel_frame:
  assumes "set_pixel img x y color = Inr img'"
  shows "m_hdrs img' = m_hdrs img" and "m_image_info img' = m_image_info img"
    and "length (m_array_pixels img') = length (m_array_pixels img)"
    and "length (m_array_pixels img' ! r) = length (m_array_pixels img ! r)"
    and "(int r, int k) \<noteq> (x, y) \<Longrightarrow> m_array_pixels img' ! r ! k = m_array_pixels img ! r ! k"
proof -
  show "m_hdrs img' = m_hdrs img" "m_image_info img' = m_image_info img"
    "length (m_array_pixels img') = length (m_array_pixels img)"
    using assms by (auto simp: set_pixel_def assign_pixel_at_def split: if_splits)
  show "length (m_array_pixels img' ! r) = length (m_array_pixels img ! r)"
    using assms
    by (cases "r = nat x") (auto simp: set_pixel_def assign_pixel_at_def split: if_splits)
  assume ne: "(int r, int k) \<noteq> (x, y)"
  show "m_array_pixels img' ! r ! k = m_array_pixels img ! r ! k"
  proof (cases "0 \<le> x \<and> x < width (m_image_info img) \<and> 0 \<le> y \<and> y < height (m_image_info img)")
    case False
    then have "img' = img" using assms set_pixel_outside [OF False, of color] by simp
    then show ?thesis by simp
  next
    case True
    then have u: "img' = img\<lparr>m_array_pixels :=
                  (m_array_pixels img)[nat x := (m_array_pixels img ! nat x)[nat y := color]]\<rparr>"
      and x: "nat x < length (m_array_pixels img)"
      using assms by (auto simp: set_pixel_def assign_pixel_at_def split: if_splits)
    show ?thesis
    proof (cases "r = nat x")
      case False
      then show ?thesis by (simp add: u)
    next
      case r: True
      then have "k \<noteq> nat y" using ne True by auto
      then show ?thesis using x r by (simp add: u)
    qed
  qed
qed

lemma plot_all_frame:
  "plot_all img ps color = Inr img' \<Longrightarrow>
     m_hdrs img' = m_hdrs img \<and> m_image_info img' = m_image_info img
     \<and> length (m_array_pixels img') = length (m_array_pixels img)
     \<and> length (m_array_pixels img' ! r) = length (m_array_pixels img ! r)
     \<and> ((int r, int k) \<notin> set ps \<longrightarrow> m_array_pixels img' ! r ! k = m_array_pixels img ! r ! k)"
proof (induction ps arbitrary: img)
  case Nil
  then show ?case by simp
next
  case (Cons p ps)
  obtain x y where p: "p = (x, y)" by (cases p)
  from Cons.prems obtain img1 where s: "set_pixel img x y color = Inr img1"
    and r: "plot_all img1 ps color = Inr img'"
    by (auto simp: p split: sum.splits)
  from Cons.IH [OF r] set_pixel_frame(1-3) [OF s] set_pixel_frame(4) [OF s, of r]
    set_pixel_frame(5) [OF s, of r k]
  show ?case by (auto simp: p)
qed





lemma draw_line_frame:
  assumes "draw_line img x0 y0 x1 y1 clr = Some (Inr img')"
  shows "m_hdrs img' = m_hdrs img \<and> m_image_info img' = m_image_info img
     \<and> (\<exists>ps. sampled_points x0 y0 x1 y1 = Some ps
           \<and> (\<forall>r k. (int r, int k) \<notin> set ps \<longrightarrow>
                 m_array_pixels img' ! r ! k = m_array_pixels img ! r ! k))"
proof -
  from draw_loop_InrD [OF assms [unfolded draw_line_def Let_def]] obtain ps where
    ps: "sampled_points x0 y0 x1 y1 = Some ps" and d: "plot_all img ps clr = Inr img'"
    unfolding sampled_points_def Let_def by blast
  from plot_all_frame [OF d] ps show ?thesis by blast
qed

text \<open>
  C7 fails on images that are not square. \<open>set_pixel\<close> compares \<open>x\<close> with the width
  and \<open>y\<close> with the height, then assigns \<open>m_array_pixels[x][y]\<close>, where \<open>x\<close> selects
  the row. On the image of the example file of width 2 and height 1, the guard holds
  for \<open>(x, y) = (1, 0)\<close> and the assignment is to row 1 of an array of one row.
\<close>

theorem set_pixel_guard_out_of_bounds:
  "read_image wide_file = Inr wide_img
   \<and> width (m_image_info wide_img) = 2 \<and> height (m_image_info wide_img) = 1
   \<and> length (m_array_pixels wide_img) = 1
   \<and> set_pixel wide_img 1 0 black = Inl OutOfBounds"
  by (simp add: wide_file_decodes)
     (simp add: set_pixel_def assign_pixel_at_def wide_img_def)




text \<open>
  C10 fails on images that are not square, by the defect of C7. On the image of width 2
  and height 1, \<open>draw_line\<close> from (0, 0) to (1, 0) and \<open>draw_diagonal_cross\<close> on the
  corners (0, 0) and (1, 1) reach \<open>set_pixel\<close> at (1, 0), whose guard holds and whose
  assignment lies outside the pixel array. (Where no such assignment happens, the frame
  holds: \<open>set_pixel_frame\<close>, \<open>plot_all_frame\<close>, \<open>draw_line_frame\<close>.)
\<close>

theorem draw_diagonal_cross_out_of_bounds:
  "read_image wide_file = Inr wide_img
   \<and> draw_line wide_img 0 0 1 0 black = Some (Inl OutOfBounds)
   \<and> draw_diagonal_cross wide_img 0 0 1 1 black = Some (Inl OutOfBounds)"
  by (simp add: wide_file_decodes)
     (simp add: draw_diagonal_cross_def draw_line_def draw_loop.simps set_pixel_def
        assign_pixel_at_def wide_img_def black_def wrap32_def)

text \<open>
  C9, as the code has it. \<open>print_image\<close> prints one line for each row of the image and,
  in column order, \<open>@\<close> for a pure black pixel, \<open>*\<close> for a pure white pixel and nothing
  for any other pixel: a line has at most as many characters as the image is wide.
\<close>

theorem preview_rows:
  assumes "well_shaped img"
  shows "\<exists>lines. print_image img = Some lines
           \<and> length lines = nat (height (m_image_info img))
           \<and> (\<forall>i < length lines.
                 lines ! i =
                   concat (map (\<lambda>p. if px_r p = 0 \<and> px_g p = 0 \<and> px_b p = 0 then ''@''
                                     else if px_r p = 255 \<and> px_g p = 255 \<and> px_b p = 255 then ''*''
                                     else [])
                             (m_array_pixels img ! i))
                 \<and> length (lines ! i) \<le> nat (width (m_image_info img)))"
proof -
  let ?lines = "map (\<lambda>row. concat (map print_pixel row)) (m_array_pixels img)"
  have len: "length (concat (map print_pixel row)) \<le> length row" for row
    by (induction row) (auto simp: print_pixel_def)
  have "length (?lines ! i) \<le> nat (width (m_image_info img))" if "i < length ?lines" for i
  proof -
    have "m_array_pixels img ! i \<in> set (m_array_pixels img)" using that by simp
    then have "length (m_array_pixels img ! i) = nat (width (m_image_info img))"
      using assms by (simp add: well_shaped_def)
    then show ?thesis using len [of "m_array_pixels img ! i"] that by simp
  qed
  moreover have "length ?lines = nat (height (m_image_info img))"
    using assms by (simp add: well_shaped_def)
  moreover have "?lines ! i =
                   concat (map (\<lambda>p. if px_r p = 0 \<and> px_g p = 0 \<and> px_b p = 0 then ''@''
                                     else if px_r p = 255 \<and> px_g p = 255 \<and> px_b p = 255 then ''*''
                                     else [])
                             (m_array_pixels img ! i))" if "i < length ?lines" for i
    using that by (simp add: print_pixel_def [abs_def])
  ultimately show ?thesis
    using print_image_well_shaped [OF assms] by (intro exI [of _ ?lines]) simp
qed

lemma wide_img_shaped: "well_shaped wide_img"
  by (simp add: well_shaped_def wide_img_def)

text \<open>The theorem at the image of a black and a white pixel.\<close>

theorem preview_rows_witness:
  "well_shaped wide_img \<and> print_image wide_img = Some [''@*'']"
proof -
  from preview_rows [OF wide_img_shaped] obtain lines where
    l: "print_image wide_img = Some lines" "length lines = nat (height (m_image_info wide_img))"
    and r: "\<forall>i < length lines.
                 lines ! i =
                   concat (map (\<lambda>p. if px_r p = 0 \<and> px_g p = 0 \<and> px_b p = 0 then ''@''
                                     else if px_r p = 255 \<and> px_g p = 255 \<and> px_b p = 255 then ''*''
                                     else [])
                             (m_array_pixels wide_img ! i))
                 \<and> length (lines ! i) \<le> nat (width (m_image_info wide_img))"
    by blast
  from l(2) have n: "length lines = 1" by (simp add: wide_img_def)
  then obtain line where ls: "lines = [line]" by (cases lines) auto
  from r [rule_format, of 0] n have "lines ! 0 = ''@*''" by (simp add: wide_img_def)
  then show ?thesis using l(1) ls wide_img_shaped by simp
qed

text \<open>
  C9 as stated fails on the image of the top-down example file: its two pixels are
  neither black nor white, and the two lines printed are empty, not a blank each.
\<close>

theorem preview_rows_counterexample:
  "read_image td_file = Inr td_img \<and> width (m_image_info td_img) = 1
   \<and> print_image td_img = Some [[], []] \<and> print_image td_img \<noteq> Some ['' '', '' '']"
  by (simp add: td_file_decodes)
     (simp add: print_image_def print_rows.simps print_cols.simps pixel_at_def td_img_def
        print_pixel_def)

end
